theory Spec2Isabelle
  imports Main "HOL-Library.Word"
begin

section \<open>Values and host functions\<close>

text \<open>
  The query codec (\<^verbatim>\<open>QueryStringConverter\<close>) and the parameter pipeline
  (\<^verbatim>\<open>QueryParamCore\<close>) are TypeScript classes. Their methods become HOL functions over a
  datatype of JavaScript values; a thrown exception becomes the \<open>Inl\<close> branch of a sum.

  Strings are lists of code units. The model covers the code units U+0000 to U+00FF, so a
  string is a HOL \<open>string\<close>. Numbers are the integers from \<open>-2^53\<close> to \<open>2^53 - 1\<close>, each of
  which is a Number value that \<open>String\<close> prints by its decimal digits; a number is carried as
  a signed word of 54 bits and read by \<open>sint\<close>. An object is the list of its own enumerable
  properties in the order \<open>Object.entries\<close> lists them; an array is the list of its elements
  (\<open>None\<close> is a hole) together with its named (non-index) properties.
\<close>

datatype exn = URIError | TypeError | SyntaxError | CallbackError | Unmodelled

text \<open>
  \<open>Unmodelled\<close> is not an exception of the program: it marks the inputs on which the model
  does not say what the code does (a percent-escape that decodes to a code point above
  U+00FF; a walk that leaves the tree for a built-in object such as the one under
  \<^verbatim>\<open>constructor\<close> or \<^verbatim>\<open>__proto__\<close>; an assignment to the \<^verbatim>\<open>length\<close> of an array).
\<close>

datatype jsval =
    JUndefined
  | JNull
  | JBool bool
  | JNum "54 word"
  | JStr string
  | JObj "(string \<times> jsval) list"
  | JArr "jsval option list" "(string \<times> jsval) list"

definition ebind :: "exn + 'a \<Rightarrow> ('a \<Rightarrow> exn + 'b) \<Rightarrow> exn + 'b" where
  "ebind m f = (case m of Inl e \<Rightarrow> Inl e | Inr x \<Rightarrow> f x)"

fun truthy :: "jsval \<Rightarrow> bool" where
  "truthy JUndefined = False"
| "truthy JNull = False"
| "truthy (JBool b) = b"
| "truthy (JNum n) = (n \<noteq> 0)"
| "truthy (JStr s) = (s \<noteq> [])"
| "truthy (JObj kvs) = True"
| "truthy (JArr els named) = True"

subsection \<open>Decimal numerals\<close>

definition digitChar :: "nat \<Rightarrow> char" where
  "digitChar d = ''0123456789'' ! d"

fun showNat :: "nat \<Rightarrow> string" where
  "showNat n = (if n < 10 then [digitChar n] else showNat (n div 10) @ [digitChar (n mod 10)])"

declare showNat.simps [simp del]

definition showInt :: "int \<Rightarrow> string" where
  "showInt i = (if i < 0 then CHR ''-'' # showNat (nat (- i)) else showNat (nat i))"

definition isDigit :: "char \<Rightarrow> bool" where
  "isDigit c = (48 \<le> (of_char c :: nat) \<and> (of_char c :: nat) \<le> 57)"

fun readNat :: "nat \<Rightarrow> string \<Rightarrow> nat" where
  "readNat acc [] = acc"
| "readNat acc (c # cs) = readNat (10 * acc + (of_char c - 48)) cs"

subsection \<open>encodeURIComponent and decodeURIComponent\<close>

definition unreserved :: "char \<Rightarrow> bool" where
  "unreserved c =
     (c \<in> set ''ABCDEFGHIJKLMNOPQRSTUVWXYZabcdefghijklmnopqrstuvwxyz0123456789-_.!~*()''
      \<or> c = CHR 0x27)"

definition hexDigit :: "nat \<Rightarrow> char" where
  "hexDigit n = ''0123456789ABCDEF'' ! n"

definition hexVal :: "char \<Rightarrow> nat option" where
  "hexVal c =
     (let n = (of_char c :: nat) in
      if 48 \<le> n \<and> n \<le> 57 then Some (n - 48)
      else if 65 \<le> n \<and> n \<le> 70 then Some (n - 55)
      else if 97 \<le> n \<and> n \<le> 102 then Some (n - 87)
      else None)"

definition pct :: "nat \<Rightarrow> string" where
  "pct b = [CHR ''%'', hexDigit (b div 16), hexDigit (b mod 16)]"

text \<open>
  A code unit outside the unreserved set is written as the percent-escapes of its UTF-8
  bytes: one byte below U+0080, two bytes from U+0080 to U+00FF. The URIError of
  \<open>encodeURIComponent\<close> arises only for a lone surrogate, a code unit from U+D800 on, so on
  the strings of the model the function always returns.
\<close>

definition encodeChar :: "char \<Rightarrow> string" where
  "encodeChar c =
     (let n = (of_char c :: nat) in
      if unreserved c then [c]
      else if n < 128 then pct n
      else pct (192 + n div 64) @ pct (128 + n mod 64))"

definition encodeURIComponent :: "string \<Rightarrow> string" where
  "encodeURIComponent s = concat (map encodeChar s)"

fun escapeAt :: "string \<Rightarrow> (nat \<times> string) option" where
  "escapeAt (p # h1 # h2 # rest) =
     (if p = CHR ''%'' then
        (case hexVal h1 of None \<Rightarrow> None
         | Some a \<Rightarrow> (case hexVal h2 of None \<Rightarrow> None | Some b \<Rightarrow> Some (16 * a + b, rest)))
      else None)"
| "escapeAt s = None"

text \<open>The \<open>n\<close> continuation bytes of a multi-byte sequence, each an escape \<open>%XX\<close> of the form \<open>10xxxxxx\<close>.\<close>

fun continuation :: "nat \<Rightarrow> string \<Rightarrow> (nat list \<times> string) option" where
  "continuation 0 s = Some ([], s)"
| "continuation (Suc n) s =
     (case escapeAt s of None \<Rightarrow> None
      | Some (b, rest) \<Rightarrow>
          if 128 \<le> b \<and> b < 192 then
            (case continuation n rest of None \<Rightarrow> None
             | Some (bs, rest') \<Rightarrow> Some (b # bs, rest'))
          else None)"

text \<open>Well-formed UTF-8: no overlong form, no surrogate, nothing above U+10FFFF.\<close>

definition utf8Valid :: "nat \<Rightarrow> nat list \<Rightarrow> bool" where
  "utf8Valid b bs =
     (if b < 224 then 194 \<le> b
      else if b = 224 then 160 \<le> hd bs
      else if b = 237 then hd bs < 160
      else if b < 240 then True
      else if b = 240 then 144 \<le> hd bs
      else if b < 244 then True
      else b = 244 \<and> hd bs < 144)"

definition codePoint :: "nat \<Rightarrow> nat list \<Rightarrow> nat" where
  "codePoint b bs =
     foldl (\<lambda>acc c. 64 * acc + (c - 128))
       (if b < 224 then b - 192 else if b < 240 then b - 224 else b - 240) bs"

lemma escapeAt_shorter: "escapeAt s = Some (b, r) \<Longrightarrow> length r < length s"
  by (induction s rule: escapeAt.induct) (auto split: if_splits option.splits)

lemma continuation_shorter: "continuation n s = Some (bs, r) \<Longrightarrow> length r \<le> length s"
proof (induction n arbitrary: s bs r)
  case 0
  then show ?case by simp
next
  case (Suc n)
  then show ?case
    by (fastforce split: option.splits if_splits prod.splits dest: escapeAt_shorter)
qed

function decodeURIComponent :: "string \<Rightarrow> exn + string" where
  "decodeURIComponent [] = Inr []"
| "decodeURIComponent (c # cs) =
     (if c \<noteq> CHR ''%'' then ebind (decodeURIComponent cs) (\<lambda>r. Inr (c # r))
      else
        (case escapeAt (c # cs) of None \<Rightarrow> Inl URIError
         | Some (b, rest) \<Rightarrow>
             if b < 128 then ebind (decodeURIComponent rest) (\<lambda>r. Inr (char_of b # r))
             else if b < 192 \<or> 248 \<le> b then Inl URIError
             else
               (case continuation (if b < 224 then 1 else if b < 240 then 2 else 3) rest of
                  None \<Rightarrow> Inl URIError
                | Some (bs, rest') \<Rightarrow>
                    if \<not> utf8Valid b bs then Inl URIError
                    else if codePoint b bs < 256
                    then ebind (decodeURIComponent rest') (\<lambda>r. Inr (char_of (codePoint b bs) # r))
                    else Inl Unmodelled)))"
  by pat_completeness auto
termination
proof (relation "measure length")
  show "wf (measure length)" by simp
next
  fix c :: char and cs :: string
  show "(cs, c # cs) \<in> measure length" by simp
next
  fix c :: char and cs x2 and b :: nat and rest
  assume "escapeAt (c # cs) = Some x2" "(b, rest) = x2"
  then show "(rest, c # cs) \<in> measure length"
    using escapeAt_shorter [of "c # cs" b rest] by simp
next
  fix c :: char and cs x2 and b :: nat and rest x2a bs rest'
  assume "escapeAt (c # cs) = Some x2" "(b, rest) = x2"
    "continuation (if b < 224 then 1 else if b < 240 then 2 else 3) rest = Some x2a"
    "(bs, rest') = x2a"
  then show "(rest', c # cs) \<in> measure length"
    using escapeAt_shorter [of "c # cs" b rest]
      continuation_shorter [of "if b < 224 then 1 else if b < 240 then 2 else 3" rest bs rest']
    by simp
qed


subsection \<open>String primitives\<close>

text \<open>\<open>s.split(sep)\<close> for a one-character separator, and \<open>parts.join(sep)\<close>.\<close>

fun splitOn :: "char \<Rightarrow> string \<Rightarrow> string list" where
  "splitOn sep [] = [[]]"
| "splitOn sep (c # cs) =
     (if c = sep then [] # splitOn sep cs
      else (case splitOn sep cs of [] \<Rightarrow> [[c]] | x # xs \<Rightarrow> (c # x) # xs))"

fun joinWith :: "string \<Rightarrow> string list \<Rightarrow> string" where
  "joinWith sep [] = []"
| "joinWith sep [x] = x"
| "joinWith sep (x # y # ys) = x @ sep @ joinWith sep (y # ys)"

text \<open>
  \<open>String(value)\<close>: the decimal digits of a number, and for an array the strings of its
  elements joined by commas, with nothing for a hole, \<open>null\<close> or \<open>undefined\<close>.
\<close>

fun String :: "jsval \<Rightarrow> string"
  and itemStrings :: "jsval option list \<Rightarrow> string list"
where
  "String JUndefined = ''undefined''"
| "String JNull = ''null''"
| "String (JBool b) = (if b then ''true'' else ''false'')"
| "String (JNum n) = showInt (sint n)"
| "String (JStr s) = s"
| "String (JObj kvs) = ''[object Object]''"
| "String (JArr els named) = joinWith '','' (itemStrings els)"
| "itemStrings [] = []"
| "itemStrings (None # rest) = [] # itemStrings rest"
| "itemStrings (Some JUndefined # rest) = [] # itemStrings rest"
| "itemStrings (Some JNull # rest) = [] # itemStrings rest"
| "itemStrings (Some v # rest) = String v # itemStrings rest"

text \<open>
  \<open>!isNaN(Number(s))\<close> for a string \<open>s\<close>: after trimming white space the string is empty
  or a numeric literal of the StringNumericLiteral grammar.
\<close>

definition isWhiteSpace :: "char \<Rightarrow> bool" where
  "isWhiteSpace c = ((of_char c :: nat) \<in> {9, 10, 11, 12, 13, 32, 160})"

definition trimWS :: "string \<Rightarrow> string" where
  "trimWS s = rev (dropWhile isWhiteSpace (rev (dropWhile isWhiteSpace s)))"

definition digitsOf :: "string \<Rightarrow> string \<Rightarrow> bool" where
  "digitsOf alphabet ds = (ds \<noteq> [] \<and> list_all (\<lambda>c. c \<in> set alphabet) ds)"

definition exponentPart :: "string \<Rightarrow> bool" where
  "exponentPart r =
     (case r of [] \<Rightarrow> True
      | e # ds \<Rightarrow>
          (e = CHR ''e'' \<or> e = CHR ''E'') \<and>
          (case ds of [] \<Rightarrow> False
           | sg # ds' \<Rightarrow>
               if sg = CHR ''+'' \<or> sg = CHR ''-'' then ds' \<noteq> [] \<and> list_all isDigit ds'
               else list_all isDigit ds))"

definition unsignedDecimal :: "string \<Rightarrow> bool" where
  "unsignedDecimal t =
     (t = ''Infinity'' \<or>
      (let ip = takeWhile isDigit t; r = dropWhile isDigit t in
       case r of [] \<Rightarrow> ip \<noteq> []
       | c # r' \<Rightarrow>
           if c = CHR ''.'' then
             (let fp = takeWhile isDigit r'; r'' = dropWhile isDigit r' in
              (ip \<noteq> [] \<or> fp \<noteq> []) \<and> exponentPart r'')
           else ip \<noteq> [] \<and> exponentPart r))"

definition nonDecimalInteger :: "string \<Rightarrow> bool" where
  "nonDecimalInteger t =
     (case t of
        z # x # ds \<Rightarrow>
          z = CHR ''0'' \<and>
          ((x \<in> set ''xX'' \<and> digitsOf ''0123456789abcdefABCDEF'' ds) \<or>
           (x \<in> set ''oO'' \<and> digitsOf ''01234567'' ds) \<or>
           (x \<in> set ''bB'' \<and> digitsOf ''01'' ds))
      | _ \<Rightarrow> False)"

definition numericString :: "string \<Rightarrow> bool" where
  "numericString s =
     (let t = trimWS s in
      t = [] \<or> nonDecimalInteger t \<or>
      unsignedDecimal (case t of c # r \<Rightarrow> if c = CHR ''+'' \<or> c = CHR ''-'' then r else t | [] \<Rightarrow> t))"

subsection \<open>Property access\<close>

text \<open>
  An array index is the canonical decimal numeral of a number below \<open>2^32 - 1\<close>; every other
  key of an array is a named property.
\<close>

definition indexOfKey :: "string \<Rightarrow> nat option" where
  "indexOfKey k =
     (if k \<noteq> [] \<and> list_all isDigit k \<and> (k = ''0'' \<or> hd k \<noteq> CHR ''0'') \<and> readNat 0 k < 2 ^ 32 - 1
      then Some (readNat 0 k) else None)"

text \<open>
  The order in which an object lists its own keys: the keys that are array indices in
  ascending numeric order, then the other keys in the order of their creation.
  \<open>keyBefore a b\<close> says that the key \<open>a\<close>, created before \<open>b\<close>, is listed before it. The
  property list of a \<open>JObj\<close> is in that order, and a new key enters it at its place.
\<close>

definition keyBefore :: "string \<Rightarrow> string \<Rightarrow> bool" where
  "keyBefore a b =
     (case indexOfKey a of
        Some i \<Rightarrow> (case indexOfKey b of Some j \<Rightarrow> i < j | None \<Rightarrow> True)
      | None \<Rightarrow> indexOfKey b = None)"

definition replaceEntry :: "string \<Rightarrow> jsval \<Rightarrow> (string \<times> jsval) list \<Rightarrow> (string \<times> jsval) list" where
  "replaceEntry k v kvs = map (\<lambda>(k', v'). if k' = k then (k', v) else (k', v')) kvs"

definition updateEntry :: "string \<Rightarrow> jsval \<Rightarrow> (string \<times> jsval) list \<Rightarrow> (string \<times> jsval) list" where
  "updateEntry k v kvs =
     (if k \<in> set (map fst kvs) then replaceEntry k v kvs
      else takeWhile (\<lambda>e. keyBefore (fst e) k) kvs @ (k, v) # dropWhile (\<lambda>e. keyBefore (fst e) k) kvs)"

definition propertyList :: "(string \<times> jsval) list \<Rightarrow> bool" where
  "propertyList kvs = (distinct (map fst kvs) \<and> sorted_wrt keyBefore (map fst kvs))"

definition setIndex :: "jsval option list \<Rightarrow> nat \<Rightarrow> jsval \<Rightarrow> jsval option list" where
  "setIndex els i v =
     (if i < length els then els[i := Some v]
      else els @ replicate (i - length els) None @ [Some v])"

text \<open>
  The names a value inherits from its prototype chain (ECMAScript 2023 with Annex B). The
  members of \<open>Object.prototype\<close> are inherited by every value; arrays, strings and numbers
  add those of their own prototype.
\<close>

definition objectPrototypeKeys :: "string list" where
  "objectPrototypeKeys =
     [''__defineGetter__'', ''__defineSetter__'', ''__lookupGetter__'', ''__lookupSetter__'',
      ''__proto__'', ''constructor'', ''hasOwnProperty'', ''isPrototypeOf'',
      ''propertyIsEnumerable'', ''toLocaleString'', ''toString'', ''valueOf'']"

definition arrayPrototypeKeys :: "string list" where
  "arrayPrototypeKeys =
     [''at'', ''concat'', ''copyWithin'', ''entries'', ''every'', ''fill'', ''filter'',
      ''find'', ''findIndex'', ''findLast'', ''findLastIndex'', ''flat'', ''flatMap'',
      ''forEach'', ''includes'', ''indexOf'', ''join'', ''keys'', ''lastIndexOf'', ''map'',
      ''pop'', ''push'', ''reduce'', ''reduceRight'', ''reverse'', ''shift'', ''slice'', ''some'',
      ''sort'', ''splice'', ''toReversed'', ''toSorted'', ''toSpliced'', ''unshift'', ''values'',
      ''with'']"

definition stringPrototypeKeys :: "string list" where
  "stringPrototypeKeys =
     [''anchor'', ''at'', ''big'', ''blink'', ''bold'', ''charAt'', ''charCodeAt'',
      ''codePointAt'', ''concat'', ''endsWith'', ''fixed'', ''fontcolor'', ''fontsize'',
      ''includes'', ''indexOf'', ''isWellFormed'', ''italics'', ''lastIndexOf'', ''link'',
      ''localeCompare'', ''match'', ''matchAll'', ''normalize'', ''padEnd'', ''padStart'',
      ''repeat'', ''replace'', ''replaceAll'', ''search'', ''slice'', ''small'', ''split'',
      ''startsWith'', ''strike'', ''sub'', ''substr'', ''substring'', ''sup'',
      ''toLocaleLowerCase'', ''toLocaleUpperCase'', ''toLowerCase'', ''toUpperCase'',
      ''toWellFormed'', ''trim'', ''trimEnd'', ''trimLeft'', ''trimRight'', ''trimStart'']"

definition numberPrototypeKeys :: "string list" where
  "numberPrototypeKeys = [''toExponential'', ''toFixed'', ''toPrecision'']"

fun inheritedKeys :: "jsval \<Rightarrow> string list" where
  "inheritedKeys (JArr els named) = arrayPrototypeKeys @ objectPrototypeKeys"
| "inheritedKeys (JStr s) = stringPrototypeKeys @ objectPrototypeKeys"
| "inheritedKeys (JNum n) = numberPrototypeKeys @ objectPrototypeKeys"
| "inheritedKeys v = objectPrototypeKeys"

text \<open>
  \<open>level[key]\<close>, read: the own property under the key if there is one (\<open>ownProperty\<close>),
  \<open>undefined\<close> if the key names nothing. A key that is no own property and names an
  inherited member yields a built-in function or object of the engine. The decoder would
  walk on into that object and read or write it; what it finds there, and what its write
  does to every later read, is not a function of the tree, and the model stops with
  \<open>Unmodelled\<close>.
\<close>

fun ownProperty :: "jsval \<Rightarrow> string \<Rightarrow> jsval option" where
  "ownProperty (JObj kvs) k = map_of kvs k"
| "ownProperty (JArr els named) k =
     (case indexOfKey k of
        Some i \<Rightarrow> (if i < length els then els ! i else None)
      | None \<Rightarrow> if k = ''length'' then Some (JNum (of_nat (length els))) else map_of named k)"
| "ownProperty (JStr s) k =
     (case indexOfKey k of
        Some i \<Rightarrow> (if i < length s then Some (JStr [s ! i]) else None)
      | None \<Rightarrow> if k = ''length'' then Some (JNum (of_nat (length s))) else None)"
| "ownProperty v k = None"

fun getProp :: "jsval \<Rightarrow> string \<Rightarrow> exn + jsval" where
  "getProp JUndefined k = Inl TypeError"
| "getProp JNull k = Inl TypeError"
| "getProp level k =
     (case ownProperty level k of
        Some v \<Rightarrow> Inr v
      | None \<Rightarrow> if k \<in> set (inheritedKeys level) then Inl Unmodelled else Inr JUndefined)"

text \<open>
  \<open>level[key] = value\<close> in strict mode (class bodies are strict). On an object or array the
  assignment overwrites the own property or creates it, also under a name that a prototype
  has as a data property. The one inherited accessor is \<open>__proto__\<close>: its setter does
  nothing when the value is a primitive or the receiver is a primitive, and replaces the
  prototype otherwise (\<open>Unmodelled\<close>, like an assignment to the \<open>length\<close> of an array). Any
  other assignment on a primitive throws a TypeError.
\<close>

fun protoSetter :: "jsval \<Rightarrow> jsval \<Rightarrow> exn + jsval" where
  "protoSetter level (JObj kvs) = Inl Unmodelled"
| "protoSetter level (JArr els named) = Inl Unmodelled"
| "protoSetter level JNull = Inl Unmodelled"
| "protoSetter level v = Inr level"

fun setProp :: "jsval \<Rightarrow> string \<Rightarrow> jsval \<Rightarrow> exn + jsval" where
  "setProp (JObj kvs) k v =
     (if k = ''__proto__'' \<and> k \<notin> set (map fst kvs) then protoSetter (JObj kvs) v
      else Inr (JObj (updateEntry k v kvs)))"
| "setProp (JArr els named) k v =
     (case indexOfKey k of
        Some i \<Rightarrow> Inr (JArr (setIndex els i v) named)
      | None \<Rightarrow>
          if k = ''length'' then Inl Unmodelled
          else if k = ''__proto__'' \<and> k \<notin> set (map fst named) then protoSetter (JArr els named) v
          else Inr (JArr els (updateEntry k v named)))"
| "setProp JUndefined k v = Inl TypeError"
| "setProp JNull k v = Inl TypeError"
| "setProp p k v = (if k = ''__proto__'' then Inr p else Inl TypeError)"

text \<open>
  The source walks by reference: \<open>currentLevel = currentLevel[cleanKey]\<close>, and the
  assignment at the last segment changes the container inside the tree. Here a level
  returns its updated value, and \<open>storeChild\<close> puts it back under the own property it was
  read from. A primitive level has nothing to update.
\<close>

fun storeChild :: "jsval \<Rightarrow> string \<Rightarrow> jsval \<Rightarrow> jsval" where
  "storeChild (JObj kvs) k child = JObj (replaceEntry k child kvs)"
| "storeChild (JArr els named) k child =
     (case indexOfKey k of
        Some i \<Rightarrow> JArr (if i < length els then els[i := Some child] else els) named
      | None \<Rightarrow> JArr els (replaceEntry k child named))"
| "storeChild level k child = level"

text \<open>
  The trees that stand for JavaScript values: the property list of an object has distinct
  keys in the order above, an array has fewer than \<open>2^32\<close> elements, and its named
  properties are neither array indices nor \<open>length\<close>.
\<close>

fun wellFormed :: "jsval \<Rightarrow> bool"
  and wellFormedProps :: "(string \<times> jsval) list \<Rightarrow> bool"
  and wellFormedItems :: "jsval option list \<Rightarrow> bool"
where
  "wellFormed (JObj kvs) = (propertyList kvs \<and> wellFormedProps kvs)"
| "wellFormed (JArr els named) =
     (length els < 2 ^ 32 \<and> propertyList named
      \<and> list_all (\<lambda>(k, v). indexOfKey k = None \<and> k \<noteq> ''length'') named
      \<and> wellFormedItems els \<and> wellFormedProps named)"
| "wellFormed JUndefined = True"
| "wellFormed JNull = True"
| "wellFormed (JBool b) = True"
| "wellFormed (JNum n) = True"
| "wellFormed (JStr s) = True"
| "wellFormedProps [] = True"
| "wellFormedProps ((k, v) # rest) = (wellFormed v \<and> wellFormedProps rest)"
| "wellFormedItems [] = True"
| "wellFormedItems (None # rest) = wellFormedItems rest"
| "wellFormedItems (Some v # rest) = (wellFormed v \<and> wellFormedItems rest)"

fun isContainer :: "jsval \<Rightarrow> bool" where
  "isContainer (JObj kvs) = True"
| "isContainer (JArr els named) = True"
| "isContainer v = False"

fun isArray :: "jsval \<Rightarrow> bool" where
  "isArray (JArr els named) = True"
| "isArray v = False"

section \<open>QueryStringConverter\<close>

subsection \<open>objectToQueryString\<close>

fun indexEntries :: "nat \<Rightarrow> jsval option list \<Rightarrow> (string \<times> jsval) list" where
  "indexEntries i [] = []"
| "indexEntries i (None # rest) = indexEntries (Suc i) rest"
| "indexEntries i (Some v # rest) = (showNat i, v) # indexEntries (Suc i) rest"

text \<open>\<open>Object.entries\<close> of an object or array (the encoder calls it on nothing else).\<close>

fun entries :: "jsval \<Rightarrow> (string \<times> jsval) list" where
  "entries (JObj kvs) = kvs"
| "entries (JArr els named) = indexEntries 0 els @ named"
| "entries v = []"

definition fullKeyOf :: "string \<Rightarrow> string \<Rightarrow> string" where
  "fullKeyOf prefix key = (if prefix \<noteq> [] then prefix @ ''['' @ key @ '']'' else key)"

lemma indexEntries_size: "(k, v) \<in> set (indexEntries i els) \<Longrightarrow> size v < Suc (size_list (size_option size) els)"
  by (induction i els rule: indexEntries.induct) auto

lemma entries_size: "(k, v) \<in> set (entries obj) \<Longrightarrow> size v < size obj"
proof (cases obj)
  case (JObj kvs)
  assume "(k, v) \<in> set (entries obj)"
  with JObj have "(k, v) \<in> set kvs" by simp
  then have "size v < Suc (size_list (size_prod (\<lambda>_. 0) size) kvs)"
    by (induction kvs) auto
  with JObj show ?thesis by simp
next
  case (JArr els named)
  assume "(k, v) \<in> set (entries obj)"
  with JArr consider "(k, v) \<in> set (indexEntries 0 els)" | "(k, v) \<in> set named" by auto
  then show ?thesis
  proof cases
    case 1
    from indexEntries_size [OF 1] JArr show ?thesis by simp
  next
    case 2
    then have "size v < Suc (size_list (size_prod (\<lambda>_. 0) size) named)"
      by (induction named) auto
    with JArr show ?thesis by simp
  qed
qed simp_all

lemma item_size: "b \<in> set els \<Longrightarrow> size_option size b \<le> size_list (size_option size) els"
  by (induction els) auto

text \<open>
  The method, with the bodies of its two loops as functions: \<open>pairParts\<close> is what one
  key/value pair pushes on \<open>queryParts\<close>, \<open>itemParts\<close> what one array item pushes.
\<close>

function objectToQueryString :: "jsval \<Rightarrow> string \<Rightarrow> string"
  and pairParts :: "string \<Rightarrow> string \<times> jsval \<Rightarrow> string list"
  and itemParts :: "string \<Rightarrow> nat \<times> jsval option \<Rightarrow> string list"
where
  "objectToQueryString object prefix =
     joinWith ''&'' (concat (map (pairParts prefix) (entries object)))"
| "pairParts prefix (key, value) =
     (let fullKey = fullKeyOf prefix key in
      case value of
        JNull \<Rightarrow> []
      | JUndefined \<Rightarrow> []
      | JObj kvs \<Rightarrow>
          (let nestedQueryString = objectToQueryString value fullKey in
           if nestedQueryString \<noteq> [] then [nestedQueryString] else [])
      | JArr els named \<Rightarrow> concat (map (itemParts fullKey) (zip [0..<length els] els))
      | _ \<Rightarrow> [encodeURIComponent fullKey @ ''='' @ encodeURIComponent (String value)])"
| "itemParts fullKey (arrayIndex, arrayItem) =
     (case arrayItem of
        Some (JObj kvs) \<Rightarrow>
          [objectToQueryString (JObj kvs) (fullKey @ ''['' @ showNat arrayIndex @ '']'')]
      | Some (JArr els named) \<Rightarrow>
          [objectToQueryString (JArr els named) (fullKey @ ''['' @ showNat arrayIndex @ '']'')]
      | None \<Rightarrow> []
      | Some JNull \<Rightarrow> []
      | Some JUndefined \<Rightarrow> []
      | Some item \<Rightarrow>
          [encodeURIComponent fullKey @ ''['' @ showNat arrayIndex @ '']='' @
           encodeURIComponent (String item)])"
  by pat_completeness auto
termination
proof (relation "measure (\<lambda>x. case x of
          Inl (v, p) \<Rightarrow> 2 * size v + 1
        | Inr (Inl (p, (k, v))) \<Rightarrow> 2 * size v + 2
        | Inr (Inr (p, (i, item))) \<Rightarrow> 2 * size_option size item + 2)")
  show "wf (measure (\<lambda>x. case x of
          Inl (v, p) \<Rightarrow> 2 * size v + 1
        | Inr (Inl (p, (k, v))) \<Rightarrow> 2 * size v + 2
        | Inr (Inr (p, (i, item))) \<Rightarrow> 2 * size_option size item + 2))" by simp
qed (auto dest!: entries_size item_size set_zip_rightD)

subsection \<open>queryStringToObject\<close>

text \<open>
  \<open>key.match(/([^[\]]+)|\[([^[\]]*)\]/g)\<close>: scanning from the left, a match is a maximal run
  of non-bracket characters, or a \<open>[\<close>, a run of non-bracket characters and a \<open>]\<close>; where
  neither alternative matches, the scan moves one character on. The empty list stands for
  \<open>null\<close> (no match).
\<close>

definition notBracket :: "char \<Rightarrow> bool" where
  "notBracket c = (c \<noteq> CHR ''['' \<and> c \<noteq> CHR '']'')"

function matchSegments :: "string \<Rightarrow> string list" where
  "matchSegments [] = []"
| "matchSegments (c # cs) =
     (if notBracket c then
        takeWhile notBracket (c # cs) # matchSegments (dropWhile notBracket cs)
      else if c = CHR ''['' then
        (case dropWhile notBracket cs of
           [] \<Rightarrow> matchSegments cs
         | d # rest \<Rightarrow>
             if d = CHR '']'' then (c # takeWhile notBracket cs @ [d]) # matchSegments rest
             else matchSegments cs)
      else matchSegments cs)"
  by pat_completeness auto
termination
proof (relation "measure length")
  show "wf (measure length)" by simp
next
  fix c :: char and cs :: string
  show "(dropWhile notBracket cs, c # cs) \<in> measure length"
    using length_dropWhile_le [of notBracket cs] by simp
next
  fix c :: char and cs d rest
  assume "dropWhile notBracket cs = d # rest"
  then have "length rest < length cs"
    using length_dropWhile_le [of notBracket cs] by simp
  then show "(rest, c # cs) \<in> measure length" by simp
qed simp_all

text \<open>\<open>keySegment.replace(/\[|\]/g, "")\<close>\<close>

definition cleanKey :: "string \<Rightarrow> string" where
  "cleanKey keySegment = filter notBracket keySegment"

text \<open>
  The inner loop over \<open>keySegments\<close>, from the level \<open>currentLevel\<close>. The source mutates the
  tree in place; here every level returns its updated value and the parent stores it back.
\<close>

fun assignPath :: "jsval \<Rightarrow> string list \<Rightarrow> jsval \<Rightarrow> exn + jsval" where
  "assignPath currentLevel [] v = Inr currentLevel"
| "assignPath currentLevel [keySegment] v = setProp currentLevel (cleanKey keySegment) v"
| "assignPath currentLevel (keySegment # nextSegment # rest) v =
     ebind (getProp currentLevel (cleanKey keySegment)) (\<lambda>existing.
       if \<not> truthy existing then
         (let fresh = (if numericString (cleanKey nextSegment) then JArr [] [] else JObj []) in
          ebind (setProp currentLevel (cleanKey keySegment) fresh) (\<lambda>level'.
          ebind (assignPath fresh (nextSegment # rest) v) (\<lambda>child.
            Inr (storeChild level' (cleanKey keySegment) child))))
       else
         ebind (assignPath existing (nextSegment # rest) v) (\<lambda>child.
           Inr (storeChild currentLevel (cleanKey keySegment) child)))"

fun mapE :: "('a \<Rightarrow> exn + 'b) \<Rightarrow> 'a list \<Rightarrow> exn + 'b list" where
  "mapE f [] = Inr []"
| "mapE f (x # xs) = ebind (f x) (\<lambda>y. ebind (mapE f xs) (\<lambda>ys. Inr (y # ys)))"

fun foldE :: "('s \<Rightarrow> 'a \<Rightarrow> exn + 's) \<Rightarrow> 's \<Rightarrow> 'a list \<Rightarrow> exn + 's" where
  "foldE f s [] = Inr s"
| "foldE f s (x # xs) = ebind (f s x) (\<lambda>s'. foldE f s' xs)"

text \<open>
  The body of the loop over \<open>queryPairs\<close>:
  \<open>const [key, value] = queryPair.split("=").map(decodeURIComponent)\<close> decodes every field
  and keeps the first two; a pair without \<open>=\<close> has the value \<open>undefined\<close>.
\<close>

definition processPair :: "jsval \<Rightarrow> string \<Rightarrow> exn + jsval" where
  "processPair parsedObject queryPair =
     ebind (mapE decodeURIComponent (splitOn CHR ''='' queryPair)) (\<lambda>fields.
       let key = (case fields of [] \<Rightarrow> [] | k # _ \<Rightarrow> k);
           v = (case fields of _ # x # _ \<Rightarrow> JStr x | _ \<Rightarrow> JUndefined)
       in if key = [] then Inr parsedObject
          else (case matchSegments key of
                  [] \<Rightarrow> Inr parsedObject
                | keySegments \<Rightarrow> assignPath parsedObject keySegments v))"

definition queryStringToObject :: "string \<Rightarrow> exn + jsval" where
  "queryStringToObject queryString =
     (if queryString = [] \<or> queryString = ''?'' then Inr (JObj [])
      else
        (let cleanedQuery = (if hd queryString = CHR ''?'' then tl queryString else queryString);
             queryPairs = filter (\<lambda>p. p \<noteq> []) (splitOn CHR ''&'' cleanedQuery)
         in foldE processPair (JObj []) queryPairs))"


section \<open>DataCompressor\<close>

text \<open>
  The host supplies what the code takes from the platform: \<open>new URLSearchParams(init)\<close> as
  the list of name/value pairs it parses, \<open>JSON.parse\<close>, and \<open>window.location.pathname\<close>
  (\<open>None\<close> where \<open>window\<close> is undefined).
\<close>

record Host =
  urlSearchParams :: "string \<Rightarrow> (string \<times> string) list"
  jsonParse :: "string \<Rightarrow> exn + jsval"
  windowPathname :: "string option"

text \<open>\<open>url.includes("?") ? url.split("?")[1] : ""\<close>\<close>

definition searchPart :: "string \<Rightarrow> string" where
  "searchPart url = (if CHR ''?'' \<in> set url then splitOn CHR ''?'' url ! 1 else [])"

definition hasCompressedData :: "Host \<Rightarrow> string \<Rightarrow> string \<Rightarrow> bool" where
  "hasCompressedData host url paramName =
     (paramName \<in> set (map fst (urlSearchParams host (searchPart url))))"

definition getCompressedData :: "Host \<Rightarrow> string \<Rightarrow> string \<Rightarrow> string option" where
  "getCompressedData host url paramName =
     map_of (urlSearchParams host (searchPart url)) paramName"

section \<open>QueryParamCore\<close>

datatype ValidatorContext = Serialized | Deserialized

record ValidationResult =
  success :: bool
  data :: "jsval option"
  errors :: "jsval option"

type_synonym Validator = "jsval \<Rightarrow> ValidatorContext \<Rightarrow> exn + ValidationResult"

text \<open>
  \<open>CompressionOptions\<close> with optional \<open>threshold\<close> and \<open>paramName\<close> is
  \<open>(int option, string option) CompressionOptions\<close>; \<open>Required<CompressionOptions>\<close> is
  \<open>(int, string) CompressionOptions\<close>. The callbacks may throw.
\<close>

record ('t, 'p) CompressionOptions =
  threshold :: 't
  paramName :: 'p
  compress :: "string \<Rightarrow> exn + string"
  decompress :: "string \<Rightarrow> exn + string"

record QueryParserOptions =
  basePath :: "string option"
  compression :: "(int option, string option) CompressionOptions option"
  defaultValues :: "(string \<times> jsval) list option"

record QueryParamCore =
  validator :: Validator
  options :: QueryParserOptions
  compressionOptions :: "(int, string) CompressionOptions option"

text \<open>The constructor: \<open>||\<close> replaces a falsy \<open>threshold\<close> or \<open>paramName\<close> by the default.\<close>

definition newQueryParamCore :: "Validator \<Rightarrow> QueryParserOptions \<Rightarrow> QueryParamCore" where
  "newQueryParamCore v opts =
     \<lparr> validator = v,
       options = opts,
       compressionOptions =
         (case compression opts of
            Some c \<Rightarrow>
              Some \<lparr> threshold = (case threshold c of Some t \<Rightarrow> if t \<noteq> 0 then t else 500 | None \<Rightarrow> 500),
                     paramName = (case paramName c of Some n \<Rightarrow> if n \<noteq> [] then n else ''qs''
                                  | None \<Rightarrow> ''qs''),
                     compress = compress c,
                     decompress = decompress c \<rparr>
          | None \<Rightarrow> None) \<rparr>"

text \<open>
  \<open>structuredClone\<close> returns a value equal to its argument: the values of the model are
  trees of plain data, and sharing between them cannot be observed.
\<close>

definition structuredClone :: "jsval \<Rightarrow> jsval" where
  "structuredClone v = v"

text \<open>The own enumerable properties an object spread \<open>{...v}\<close> copies.\<close>

fun spreadProps :: "jsval \<Rightarrow> (string \<times> jsval) list" where
  "spreadProps (JStr s) = map (\<lambda>(i, c). (showNat i, JStr [c])) (zip [0..<length s] s)"
| "spreadProps v = entries v"

text \<open>\<open>{...a, ...b}\<close>: the properties of each source in turn, a later one overwriting in place.\<close>

definition objectSpread :: "(string \<times> jsval) list list \<Rightarrow> (string \<times> jsval) list" where
  "objectSpread sources =
     foldl (\<lambda>target source. foldl (\<lambda>acc (k, v). updateEntry k v acc) target source) [] sources"

definition applyDefaultValues :: "QueryParamCore \<Rightarrow> jsval \<Rightarrow> jsval" where
  "applyDefaultValues core params =
     (let defaults = (case defaultValues (options core) of
                        Some d \<Rightarrow> spreadProps (structuredClone (JObj d)) | None \<Rightarrow> [])
      in JObj (objectSpread [defaults, spreadProps (structuredClone params)]))"

text \<open>\<open>validationResult.success && validationResult.data\<close>\<close>

definition validData :: "ValidationResult \<Rightarrow> jsval option" where
  "validData r =
     (case data r of Some d \<Rightarrow> if success r \<and> truthy d then Some d else None | None \<Rightarrow> None)"

definition parsedSerializedParams :: "QueryParamCore \<Rightarrow> string \<Rightarrow> jsval \<Rightarrow> exn + jsval" where
  "parsedSerializedParams core queryString defaultParams =
     ebind (queryStringToObject queryString) (\<lambda>parsed.
       let mergedData = JObj (objectSpread [spreadProps defaultParams,
                                            spreadProps (structuredClone parsed)]) in
       ebind (validator core mergedData Serialized) (\<lambda>validationResult.
         case validData validationResult of
           Some d \<Rightarrow> Inr (structuredClone d)
         | None \<Rightarrow> Inr mergedData))"

text \<open>
  The \<open>try\<close> block is the computation \<open>attempt\<close>; \<open>catch\<close> logs the error and falls through
  to \<open>return defaultParams\<close>, as does a missing or empty marker value.
\<close>

definition parseCompressedParams ::
  "Host \<Rightarrow> QueryParamCore \<Rightarrow> string \<Rightarrow> jsval \<Rightarrow> exn + jsval" where
  "parseCompressedParams host core queryString defaultParams =
     (case compressionOptions core of
        None \<Rightarrow> parsedSerializedParams core queryString defaultParams
      | Some co \<Rightarrow>
          (let attempt =
             (case getCompressedData host queryString (paramName co) of
                None \<Rightarrow> Inr None
              | Some compressed \<Rightarrow>
                  if compressed \<noteq> [] then
                    ebind (decompress co compressed) (\<lambda>decompressed.
                    ebind (jsonParse host decompressed) (\<lambda>parsed.
                      let mergedData = JObj (objectSpread [spreadProps defaultParams,
                                                           spreadProps (structuredClone parsed)]) in
                      ebind (validator core mergedData Serialized) (\<lambda>validationResult.
                        case validData validationResult of
                          Some d \<Rightarrow> Inr (Some (structuredClone d))
                        | None \<Rightarrow> Inr (Some mergedData))))
                  else Inr None)
           in case attempt of
                Inl error \<Rightarrow> Inr defaultParams
              | Inr None \<Rightarrow> Inr defaultParams
              | Inr (Some result) \<Rightarrow> Inr result))"

definition parseQueryParams :: "Host \<Rightarrow> QueryParamCore \<Rightarrow> string \<Rightarrow> exn + jsval" where
  "parseQueryParams host core queryString =
     (let withDefaults = applyDefaultValues core (JObj []) in
      if (case compressionOptions core of
            Some co \<Rightarrow> hasCompressedData host queryString (paramName co)
          | None \<Rightarrow> False)
      then parseCompressedParams host core queryString withDefaults
      else parsedSerializedParams core queryString withDefaults)"

definition validateDeserializedParams :: "QueryParamCore \<Rightarrow> jsval \<Rightarrow> exn + ValidationResult" where
  "validateDeserializedParams core params =
     (let withDefaults =
        JObj (objectSpread
               [(case defaultValues (options core) of
                   Some d \<Rightarrow> spreadProps (structuredClone (JObj d)) | None \<Rightarrow> []),
                (if truthy params then spreadProps (structuredClone params) else [])])
      in ebind (validator core withDefaults Deserialized) (\<lambda>validationResult.
           case validData validationResult of
             Some d \<Rightarrow> Inr \<lparr> success = True, data = Some (structuredClone d),
                              errors = errors validationResult \<rparr>
           | None \<Rightarrow> Inr validationResult))"

subsection \<open>JSON.stringify\<close>

definition hexLower :: "nat \<Rightarrow> char" where
  "hexLower n = ''0123456789abcdef'' ! n"

definition quoteChar :: "char \<Rightarrow> string" where
  "quoteChar c =
     (let n = (of_char c :: nat) in
      if c = CHR 0x22 then [CHR 0x5C, CHR 0x22]
      else if c = CHR 0x5C then [CHR 0x5C, CHR 0x5C]
      else if n = 8 then [CHR 0x5C, CHR ''b'']
      else if n = 9 then [CHR 0x5C, CHR ''t'']
      else if n = 10 then [CHR 0x5C, CHR ''n'']
      else if n = 12 then [CHR 0x5C, CHR ''f'']
      else if n = 13 then [CHR 0x5C, CHR ''r'']
      else if n < 32 then [CHR 0x5C, CHR ''u'', CHR ''0'', CHR ''0'', hexLower (n div 16), hexLower (n mod 16)]
      else [c])"

definition quoteJSONString :: "string \<Rightarrow> string" where
  "quoteJSONString s = CHR 0x22 # concat (map quoteChar s) @ [CHR 0x22]"

text \<open>
  \<open>None\<close> is the result \<open>undefined\<close>. A property whose value serializes to \<open>undefined\<close> is
  left out of an object; a hole or such an element of an array is written \<open>null\<close>.
\<close>

fun JSON_stringify :: "jsval \<Rightarrow> string option"
  and stringifyProps :: "(string \<times> jsval) list \<Rightarrow> string list"
  and stringifyItems :: "jsval option list \<Rightarrow> string list"
where
  "JSON_stringify JUndefined = None"
| "JSON_stringify JNull = Some ''null''"
| "JSON_stringify (JBool b) = Some (if b then ''true'' else ''false'')"
| "JSON_stringify (JNum n) = Some (showInt (sint n))"
| "JSON_stringify (JStr s) = Some (quoteJSONString s)"
| "JSON_stringify (JObj kvs) = Some (''{'' @ joinWith '','' (stringifyProps kvs) @ ''}'')"
| "JSON_stringify (JArr els named) = Some (''['' @ joinWith '','' (stringifyItems els) @ '']'')"
| "stringifyProps [] = []"
| "stringifyProps ((k, v) # rest) =
     (case JSON_stringify v of None \<Rightarrow> [] | Some s \<Rightarrow> [quoteJSONString k @ '':'' @ s])
     @ stringifyProps rest"
| "stringifyItems [] = []"
| "stringifyItems (None # rest) = ''null'' # stringifyItems rest"
| "stringifyItems (Some v # rest) =
     (case JSON_stringify v of None \<Rightarrow> ''null'' | Some s \<Rightarrow> s) # stringifyItems rest"

subsection \<open>createUrl\<close>

definition createRegularUrl :: "jsval \<Rightarrow> string \<Rightarrow> string" where
  "createRegularUrl params base =
     (let queryString = objectToQueryString params [] in
      base @ (if queryString \<noteq> [] then ''?'' @ queryString else []))"

definition createCompressedUrl :: "QueryParamCore \<Rightarrow> jsval \<Rightarrow> string \<Rightarrow> exn + string" where
  "createCompressedUrl core params base =
     (case compressionOptions core of
        None \<Rightarrow> Inr (createRegularUrl params base)
      | Some co \<Rightarrow>
          (case JSON_stringify params of
             None \<Rightarrow> Inl Unmodelled
           | Some jsonString \<Rightarrow>
               ebind (compress co jsonString) (\<lambda>compressed.
                 Inr (base @ ''?'' @ paramName co @ ''='' @ encodeURIComponent compressed))))"

definition resolveBasePath :: "Host \<Rightarrow> QueryParamCore \<Rightarrow> string" where
  "resolveBasePath host core =
     (let fallback = (case windowPathname host of Some p \<Rightarrow> p | None \<Rightarrow> ''/'') in
      case basePath (options core) of
        Some b \<Rightarrow> if b \<noteq> [] then b else fallback
      | None \<Rightarrow> fallback)"

definition createUrl :: "Host \<Rightarrow> QueryParamCore \<Rightarrow> jsval \<Rightarrow> exn + string" where
  "createUrl host core params =
     (let base = resolveBasePath host core in
      case compressionOptions core of
        None \<Rightarrow> Inr (createRegularUrl params base)
      | Some co \<Rightarrow>
          (case JSON_stringify params of
             None \<Rightarrow> Inl TypeError
           | Some jsonString \<Rightarrow>
               if int (length jsonString) > threshold co
               then createCompressedUrl core params base
               else Inr (createRegularUrl params base)))"


section \<open>Scalar normalisation\<close>

text \<open>
  The codec prints every scalar with \<open>String\<close> and reads it back as a string. \<open>normalize\<close>
  is the value in which every scalar (string, number, boolean, null) has been replaced by
  its string form, as the round-trip property of the specification words it.
\<close>

fun normalize :: "jsval \<Rightarrow> jsval" where
  "normalize (JObj kvs) = JObj (map (\<lambda>p. (fst p, normalize (snd p))) kvs)"
| "normalize (JArr els named) =
     JArr (map (map_option normalize) els) (map (\<lambda>p. (fst p, normalize (snd p))) named)"
| "normalize JUndefined = JUndefined"
| "normalize v = JStr (String v)"

section \<open>Evaluation on concrete inputs\<close>

lemma continuation_numeral [simp]:
  "continuation (numeral k) s = continuation (Suc (pred_numeral k)) s"
  by (simp add: numeral_eq_Suc)

lemma continuation_1 [simp]: "continuation 1 s = continuation (Suc 0) s"
  by simp

lemmas codec_eval =
  notBracket_def cleanKey_def numericString_def trimWS_def isWhiteSpace_def
  nonDecimalInteger_def unsignedDecimal_def exponentPart_def isDigit_def digitsOf_def
  indexOfKey_def objectPrototypeKeys_def arrayPrototypeKeys_def stringPrototypeKeys_def
  numberPrototypeKeys_def keyBefore_def replaceEntry_def updateEntry_def setIndex_def Let_def ebind_def encodeURIComponent_def encodeChar_def unreserved_def pct_def
  hexDigit_def fullKeyOf_def showNat.simps showInt_def digitChar_def quoteJSONString_def
  quoteChar_def hexLower_def hexVal_def utf8Valid_def codePoint_def char_of_eq_iff
  queryStringToObject_def processPair_def

text \<open>
  A validator that accepts everything and returns its input, and one that rejects
  everything. \<open>exampleParse\<close> is \<open>JSON.parse\<close> on the texts the examples hand to it, and
  \<open>exampleSearchParams\<close> is \<open>new URLSearchParams\<close> on the query \<open>qs=abc\<close>; the examples
  consult them on nothing else. \<open>bareHost\<close> is a host without a window.
\<close>

definition echoValidator :: Validator where
  "echoValidator v ctx = Inr \<lparr> success = True, data = Some v, errors = None \<rparr>"

definition rejectingValidator :: Validator where
  "rejectingValidator v ctx = Inr \<lparr> success = False, data = None, errors = Some (JStr ''invalid'') \<rparr>"

definition dq :: string where "dq = [CHR 0x22]"

definition exampleParse :: "string \<Rightarrow> exn + jsval" where
  "exampleParse text =
     (if text = ''{}'' then Inr (JObj [])
      else if text = ''{'' @ dq @ ''page'' @ dq @ '':2}'' then Inr (JObj [(''page'', JNum 2)])
      else if text = ''not json'' then Inl SyntaxError
      else Inl Unmodelled)"

definition exampleSearchParams :: "string \<Rightarrow> (string \<times> string) list" where
  "exampleSearchParams init = (if init = ''qs=abc'' then [(''qs'', ''abc'')] else [])"

definition bareHost :: Host where
  "bareHost = \<lparr> urlSearchParams = exampleSearchParams, jsonParse = exampleParse,
                windowPathname = None \<rparr>"


text \<open>
  Example configurations: a compressor that only records the length of its input, a core
  with the threshold 10, a host whose query \<open>qs=abc\<close> carries the marker parameter, and a
  core with compression and the default \<open>{page: 1}\<close>.
\<close>

definition lengthCompressor :: "string \<Rightarrow> exn + string" where
  "lengthCompressor s = Inr (''len:'' @ showNat (length s))"

definition exampleCore :: QueryParamCore where
  "exampleCore =
     newQueryParamCore echoValidator
       \<lparr> basePath = Some ''/items'',
         compression = Some \<lparr> threshold = Some 10, paramName = Some ''qs'',
                              compress = lengthCompressor, decompress = (\<lambda>s. Inl CallbackError) \<rparr>,
         defaultValues = None \<rparr>"

lemma exampleCore_options:
  "compressionOptions exampleCore =
     Some \<lparr> threshold = 10, paramName = ''qs'', compress = lengthCompressor,
            decompress = (\<lambda>s. Inl CallbackError) \<rparr>"
  by (simp add: exampleCore_def newQueryParamCore_def)

lemma stringify_long:
  "JSON_stringify (JObj [(''search'', JStr ''kernel''),
       (''tags'', JArr [Some (JStr ''hol''), Some (JStr ''proof''), Some (JStr ''logic'')] [])])
   = Some (''{'' @ dq @ ''search'' @ dq @ '':'' @ dq @ ''kernel'' @ dq @ '','' @ dq @ ''tags'' @ dq @ '':['' @ dq @ ''hol'' @ dq @ '','' @ dq @ ''proof'' @ dq @ '','' @ dq @ ''logic'' @ dq @ '']}'')"
  by (simp add: codec_eval dq_def)

lemma stringify_short:
  "JSON_stringify (JObj [(''a'', JNum 1)]) = Some (''{'' @ dq @ ''a'' @ dq @ '':1}'')"
  by (simp add: codec_eval dq_def)

definition markerHost :: Host where
  "markerHost =
     \<lparr> urlSearchParams = exampleSearchParams, jsonParse = exampleParse,
       windowPathname = Some ''/list'' \<rparr>"

definition compressedCore :: "Validator \<Rightarrow> (string \<Rightarrow> exn + string) \<Rightarrow> QueryParamCore" where
  "compressedCore v dec =
     newQueryParamCore v
       \<lparr> basePath = None,
         compression = Some \<lparr> threshold = None, paramName = None,
                              compress = lengthCompressor, decompress = dec \<rparr>,
         defaultValues = Some [(''page'', JNum 1)] \<rparr>"

lemma compressedCore_options:
  "compressionOptions (compressedCore v dec) =
     Some \<lparr> threshold = 500, paramName = ''qs'', compress = lengthCompressor, decompress = dec \<rparr>"
  by (simp add: compressedCore_def newQueryParamCore_def)

lemma markerHost_get: "getCompressedData markerHost ''?qs=abc'' ''qs'' = Some ''abc''"
  by (simp add: getCompressedData_def markerHost_def exampleSearchParams_def searchPart_def)

text \<open>
  A core with the defaults \<open>{page: 1, sort: "asc"}\<close>, without compression or with the given
  \<open>decompress\<close>.
\<close>

definition listingCore :: "Validator \<Rightarrow> (string \<Rightarrow> exn + string) option \<Rightarrow> QueryParamCore" where
  "listingCore v dec =
     newQueryParamCore v
       \<lparr> basePath = None,
         compression =
           map_option (\<lambda>d. \<lparr> threshold = None, paramName = None,
                              compress = lengthCompressor, decompress = d \<rparr>) dec,
         defaultValues = Some [(''page'', JNum 1), (''sort'', JStr ''asc'')] \<rparr>"

section \<open>Object spread\<close>

lemma map_of_replaceEntry:
  "map_of (replaceEntry k v kvs) = (if k \<in> fst ` set kvs then (map_of kvs)(k \<mapsto> v) else map_of kvs)"
  by (induction kvs) (auto simp: replaceEntry_def)

lemma map_of_insert:
  "k \<notin> fst ` set xs \<Longrightarrow> map_of (xs @ (k, v) # ys) = (map_of (xs @ ys))(k \<mapsto> v)"
  by (induction xs) auto

lemma map_of_updateEntry: "map_of (updateEntry k v kvs) = (map_of kvs)(k \<mapsto> v)"
proof (cases "k \<in> fst ` set kvs")
  case True
  then show ?thesis by (simp add: updateEntry_def map_of_replaceEntry)
next
  case False
  let ?P = "\<lambda>e. keyBefore (fst e) k"
  have "k \<notin> fst ` set (takeWhile ?P kvs)"
    using False set_takeWhileD [of _ ?P kvs] by auto
  from map_of_insert [OF this, of v "dropWhile ?P kvs"] False
  show ?thesis by (simp add: updateEntry_def)
qed

lemma updateEntry_fresh:
  assumes "k \<notin> fst ` set kvs" "\<forall>e\<in>set kvs. keyBefore (fst e) k"
  shows "updateEntry k v kvs = kvs @ [(k, v)]"
proof -
  have "takeWhile (\<lambda>e. keyBefore (fst e) k) kvs = kvs" "dropWhile (\<lambda>e. keyBefore (fst e) k) kvs = []"
    using assms(2) by simp_all
  with assms(1) show ?thesis by (simp add: updateEntry_def)
qed

lemma spread_fresh:
  "propertyList (tgt @ src) \<Longrightarrow> foldl (\<lambda>acc (k, v). updateEntry k v acc) tgt src = tgt @ src"
proof (induction src arbitrary: tgt)
  case Nil
  then show ?case by simp
next
  case (Cons p src)
  obtain k v where p: "p = (k, v)" by (cases p)
  from Cons.prems p have fresh: "k \<notin> fst ` set tgt" "\<forall>e\<in>set tgt. keyBefore (fst e) k"
    by (auto simp: propertyList_def sorted_wrt_append)
  have "foldl (\<lambda>acc (k, v). updateEntry k v acc) (tgt @ [(k, v)]) src = (tgt @ [(k, v)]) @ src"
    using Cons.prems p by (intro Cons.IH) simp
  with fresh p show ?case by (simp add: updateEntry_fresh)
qed

lemma map_of_spread:
  "distinct (map fst src) \<Longrightarrow>
   map_of (foldl (\<lambda>acc (k, v). updateEntry k v acc) tgt src) = map_of tgt ++ map_of src"
proof (induction src arbitrary: tgt)
  case Nil
  then show ?case by simp
next
  case (Cons p src)
  obtain k v where p: "p = (k, v)" by (cases p)
  have notin: "map_of src k = None" using Cons.prems p by (auto simp: map_of_eq_None_iff)
  have "map_of (foldl (\<lambda>acc (k, v). updateEntry k v acc) (updateEntry k v tgt) src)
        = map_of (updateEntry k v tgt) ++ map_of src"
    using Cons.IH Cons.prems by simp
  also have "\<dots> = map_of tgt ++ map_of ((k, v) # src)"
    using notin by (intro ext) (auto simp: map_of_updateEntry map_add_def split: option.splits)
  finally have "map_of (foldl (\<lambda>acc (k, v). updateEntry k v acc) (updateEntry k v tgt) src)
        = map_of tgt ++ map_of ((k, v) # src)" .
  moreover have "foldl (\<lambda>acc (k, v). updateEntry k v acc) tgt (p # src)
        = foldl (\<lambda>acc (k, v). updateEntry k v acc) (updateEntry k v tgt) src"
    by (simp add: p)
  ultimately show ?case by (simp only: p)
qed

lemma distinct_updateEntry:
  assumes "distinct (map fst kvs)"
  shows "distinct (map fst (updateEntry k v kvs))"
proof (cases "k \<in> fst ` set kvs")
  case True
  have "map fst (replaceEntry k v kvs) = map fst kvs"
    by (induction kvs) (auto simp: replaceEntry_def)
  with True assms show ?thesis by (simp add: updateEntry_def)
next
  case False
  let ?P = "\<lambda>e. keyBefore (fst e) k"
  from assms have "distinct (map fst (takeWhile ?P kvs) @ map fst (dropWhile ?P kvs))"
    by (simp flip: map_append)
  moreover have "k \<notin> fst ` set (takeWhile ?P kvs)" "k \<notin> fst ` set (dropWhile ?P kvs)"
    using False set_takeWhileD [of _ ?P kvs] set_dropWhileD [of _ ?P kvs] by auto
  ultimately show ?thesis using False by (simp add: updateEntry_def)
qed

lemma distinct_spread:
  "distinct (map fst tgt) \<Longrightarrow> distinct (map fst (foldl (\<lambda>acc (k, v). updateEntry k v acc) tgt src))"
  by (induction src arbitrary: tgt) (auto simp: distinct_updateEntry)

lemma distinct_objectSpread: "distinct (map fst (objectSpread sources))"
proof -
  have "distinct (map fst tgt) \<Longrightarrow>
        distinct (map fst (foldl (\<lambda>target source. foldl (\<lambda>acc (k, v). updateEntry k v acc) target source)
          tgt sources))" for tgt
    by (induction sources arbitrary: tgt) (simp_all add: distinct_spread)
  from this [of "[]"] show ?thesis by (simp add: objectSpread_def)
qed

lemma map_of_objectSpread:
  "distinct (map fst a) \<Longrightarrow> distinct (map fst b) \<Longrightarrow>
   map_of (objectSpread [a, b]) k = (case map_of b k of Some v \<Rightarrow> Some v | None \<Rightarrow> map_of a k)"
  by (simp add: objectSpread_def map_of_spread map_add_def)

lemma objectSpread_single: "propertyList d \<Longrightarrow> objectSpread [d] = d"
  using spread_fresh [of "[]" d] by (simp add: objectSpread_def)

lemma applyDefaultValues_empty:
  "applyDefaultValues core (JObj []) =
     JObj (objectSpread [case defaultValues (options core) of Some d \<Rightarrow> d | None \<Rightarrow> []])"
  by (cases "defaultValues (options core)")
     (simp_all add: applyDefaultValues_def structuredClone_def objectSpread_def)

section \<open>Claims about the parameter pipeline\<close>

text \<open>
  C10. A compression configuration with the explicit threshold \<open>0\<close> gives the effective
  threshold 500, and one with the explicit parameter name \<open>""\<close> gives the effective marker
  parameter \<open>qs\<close>: the resolved settings are those of the default, supplied or left out,
  and \<open>parseQueryParams\<close>, \<open>validateDeserializedParams\<close> and \<open>createUrl\<close> behave as they
  do when 500, respectively \<open>qs\<close>, is configured.
\<close>

theorem falsy_compression_settings_fall_back_to_defaults:
  fixes c :: "(int option, string option) CompressionOptions"
    and v :: Validator and opts :: QueryParserOptions
  defines "core t n \<equiv>
             newQueryParamCore v (opts\<lparr>compression := Some (c\<lparr>threshold := t, paramName := n\<rparr>)\<rparr>)"
  shows "map_option threshold (compressionOptions (core (Some 0) n)) = Some 500
       \<and> map_option paramName (compressionOptions (core t (Some []))) = Some ''qs''
       \<and> compressionOptions (core (Some 0) n) = compressionOptions (core (Some 500) n)
       \<and> compressionOptions (core (Some 0) n) = compressionOptions (core None n)
       \<and> compressionOptions (core t (Some [])) = compressionOptions (core t (Some ''qs''))
       \<and> compressionOptions (core t (Some [])) = compressionOptions (core t None)
       \<and> parseQueryParams host (core (Some 0) n) queryString
           = parseQueryParams host (core (Some 500) n) queryString
       \<and> parseQueryParams host (core t (Some [])) queryString
           = parseQueryParams host (core t (Some ''qs'')) queryString
       \<and> validateDeserializedParams (core (Some 0) n) params
           = validateDeserializedParams (core (Some 500) n) params
       \<and> validateDeserializedParams (core t (Some [])) params
           = validateDeserializedParams (core t (Some ''qs'')) params
       \<and> createUrl host (core (Some 0) n) params = createUrl host (core (Some 500) n) params
       \<and> createUrl host (core t (Some [])) params = createUrl host (core t (Some ''qs'')) params"
  unfolding core_def
  by (simp add: newQueryParamCore_def parseQueryParams_def parseCompressedParams_def
      parsedSerializedParams_def applyDefaultValues_def validateDeserializedParams_def
      createUrl_def createCompressedUrl_def resolveBasePath_def Let_def
      cong: if_cong option.case_cong sum.case_cong)

text \<open>
  C7. \<open>validateDeserializedParams\<close> hands the validator the defaults overlaid by the
  candidate: a key of the candidate keeps the candidate's value, and a default is used only
  for a key the candidate lacks. On success the validator's data is returned.
\<close>

theorem validate_merges_defaults_under_candidate:
  assumes "defaultValues (options core) = Some d"
    and "distinct (map fst d)" and "distinct (map fst cand)"
  shows "validateDeserializedParams core (JObj cand) =
           ebind (validator core (JObj (objectSpread [d, cand])) Deserialized) (\<lambda>r.
             case validData r of
               Some x \<Rightarrow> Inr \<lparr> success = True, data = Some x, errors = errors r \<rparr>
             | None \<Rightarrow> Inr r)
         \<and> map_of (objectSpread [d, cand]) k =
             (case map_of cand k of Some v \<Rightarrow> Some v | None \<Rightarrow> map_of d k)"
proof
  show "validateDeserializedParams core (JObj cand) =
           ebind (validator core (JObj (objectSpread [d, cand])) Deserialized) (\<lambda>r.
             case validData r of
               Some x \<Rightarrow> Inr \<lparr> success = True, data = Some x, errors = errors r \<rparr>
             | None \<Rightarrow> Inr r)"
    using assms(1)
    by (simp add: validateDeserializedParams_def structuredClone_def cong: option.case_cong)
  show "map_of (objectSpread [d, cand]) k =
             (case map_of cand k of Some v \<Rightarrow> Some v | None \<Rightarrow> map_of d k)"
    by (rule map_of_objectSpread [OF assms(2,3)])
qed

text \<open>The example of the specification: candidate \<open>{a: 1}\<close> over the defaults \<open>{a: 2, b: 3}\<close>.\<close>

theorem validate_merges_defaults_under_candidate_witness:
  "validateDeserializedParams
     (newQueryParamCore echoValidator
        \<lparr> basePath = None, compression = None,
          defaultValues = Some [(''a'', JNum 2), (''b'', JNum 3)] \<rparr>)
     (JObj [(''a'', JNum 1)])
   = Inr \<lparr> success = True, data = Some (JObj [(''a'', JNum 1), (''b'', JNum 3)]), errors = None \<rparr>"
  using validate_merges_defaults_under_candidate
    [of "newQueryParamCore echoValidator
        \<lparr> basePath = None, compression = None,
          defaultValues = Some [(''a'', JNum 2), (''b'', JNum 3)] \<rparr>"
      "[(''a'', JNum 2), (''b'', JNum 3)]" "[(''a'', JNum 1)]" "''a''"]
  by (simp add: newQueryParamCore_def objectSpread_def echoValidator_def validData_def codec_eval)


text \<open>
  C6. With a compression policy, \<open>createUrl\<close> emits
  \<open>basePath?markerParamName=encodeURIComponent(compress(json))\<close> exactly when the length of
  \<open>JSON.stringify(params)\<close> exceeds the effective threshold (provided \<open>compress\<close> returns);
  otherwise it emits the plain encoding, and the base path alone when that encoding is empty.
\<close>

theorem createUrl_compresses_above_threshold:
  assumes "compressionOptions core = Some co" and "JSON_stringify params = Some jsonString"
  shows "createUrl host core params =
          (if int (length jsonString) > threshold co then
             ebind (compress co jsonString) (\<lambda>compressed.
               Inr (resolveBasePath host core @ ''?'' @ paramName co @ ''='' @
                    encodeURIComponent compressed))
           else if objectToQueryString params [] = [] then Inr (resolveBasePath host core)
           else Inr (resolveBasePath host core @ ''?'' @ objectToQueryString params []))"
  using assms
  by (simp add: createUrl_def createCompressedUrl_def createRegularUrl_def Let_def)

text \<open>
  With the threshold 10: a value whose JSON text has 50 characters gives a URL with the
  marker parameter and no plain key; one of 7 characters gives the plain keys; the empty
  object gives the base path.
\<close>

theorem createUrl_compresses_above_threshold_witness:
  "createUrl bareHost exampleCore
      (JObj [(''search'', JStr ''kernel''),
             (''tags'', JArr [Some (JStr ''hol''), Some (JStr ''proof''), Some (JStr ''logic'')] [])])
     = Inr ''/items?qs=len%3A50''
   \<and> createUrl bareHost exampleCore (JObj [(''a'', JNum 1)]) = Inr ''/items?a=1''
   \<and> createUrl bareHost exampleCore (JObj []) = Inr ''/items''"
  using createUrl_compresses_above_threshold [OF exampleCore_options stringify_long, of bareHost]
    createUrl_compresses_above_threshold [OF exampleCore_options stringify_short, of bareHost]
    createUrl_compresses_above_threshold [OF exampleCore_options, of "JObj []" "''{}''" bareHost]
  by (simp add: exampleCore_def newQueryParamCore_def resolveBasePath_def lengthCompressor_def
      dq_def codec_eval)

text \<open>
  C2 (the code departs from the claim). Without a compression marker the read path calls
  \<open>queryStringToObject\<close> outside any \<open>try\<close>, so the URIError that \<open>decodeURIComponent\<close>
  throws on the query \<open>?%\<close> reaches the caller of \<open>parseQueryParams\<close>.
\<close>

theorem parse_throws_on_malformed_escape:
  "parseQueryParams host
     (newQueryParamCore v \<lparr> basePath = None, compression = None, defaultValues = dv \<rparr>) ''?%''
   = Inl URIError"
  by (simp add: parseQueryParams_def newQueryParamCore_def parsedSerializedParams_def codec_eval)

text \<open>
  C3. When the marker parameter is present and \<open>decompress\<close> throws on its value, or
  \<open>JSON.parse\<close> throws on the decompressed text, \<open>parseQueryParams\<close> does not throw and
  returns the copy \<open>{...defaultValues}\<close> of the defaults alone (the empty object when no
  defaults are configured); the copy lists the properties of the defaults as they are.
\<close>

theorem parse_falls_back_to_defaults_when_decompression_fails:
  fixes core :: QueryParamCore
  defines "defaults \<equiv> (case defaultValues (options core) of Some d \<Rightarrow> d | None \<Rightarrow> [])"
  assumes co: "compressionOptions core = Some co"
    and marker: "getCompressedData host queryString (paramName co) = Some compressed"
    and fails: "decompress co compressed = Inl e \<or>
                (\<exists>d. decompress co compressed = Inr d \<and> jsonParse host d = Inl e)"
  shows "parseQueryParams host core queryString = Inr (JObj (objectSpread [defaults]))
       \<and> (propertyList defaults \<longrightarrow> objectSpread [defaults] = defaults)"
proof
  have present: "hasCompressedData host queryString (paramName co)"
    using marker by (auto simp: hasCompressedData_def getCompressedData_def dest!: map_of_SomeD
        intro: rev_image_eqI)
  have "parseCompressedParams host core queryString (applyDefaultValues core (JObj []))
        = Inr (applyDefaultValues core (JObj []))"
    using co marker fails by (auto simp: parseCompressedParams_def ebind_def)
  with co present show "parseQueryParams host core queryString = Inr (JObj (objectSpread [defaults]))"
    by (simp add: parseQueryParams_def applyDefaultValues_empty defaults_def)
  show "propertyList defaults \<longrightarrow> objectSpread [defaults] = defaults"
    by (simp add: objectSpread_single)
qed

theorem parse_falls_back_to_defaults_when_decompression_fails_witness:
  "parseQueryParams markerHost (compressedCore echoValidator (\<lambda>s. Inl CallbackError)) ''?qs=abc''
     = Inr (JObj [(''page'', JNum 1)])
   \<and> parseQueryParams markerHost (compressedCore echoValidator (\<lambda>s. Inr ''not json'')) ''?qs=abc''
     = Inr (JObj [(''page'', JNum 1)])"
  using parse_falls_back_to_defaults_when_decompression_fails
      [of "compressedCore echoValidator (\<lambda>s. Inl CallbackError)"
          "\<lparr> threshold = 500, paramName = ''qs'', compress = lengthCompressor,
             decompress = (\<lambda>s. Inl CallbackError) \<rparr>"
          markerHost "''?qs=abc''" "''abc''" CallbackError]
    parse_falls_back_to_defaults_when_decompression_fails
      [of "compressedCore echoValidator (\<lambda>s. Inr ''not json'')"
          "\<lparr> threshold = 500, paramName = ''qs'', compress = lengthCompressor,
             decompress = (\<lambda>s. Inr ''not json'') \<rparr>"
          markerHost "''?qs=abc''" "''abc''" SyntaxError]
  by (simp add: compressedCore_options markerHost_get)
     (simp add: compressedCore_def newQueryParamCore_def markerHost_def exampleParse_def
       exampleSearchParams_def objectSpread_def codec_eval)

text \<open>
  C4. When the validator reports failure in the serialized context, \<open>parseQueryParams\<close>
  returns the decoded tree merged over the defaults, on the plain path (the tree decoded by
  \<open>queryStringToObject\<close>) and on the compressed path (the tree parsed from the decompressed
  payload). In the merge a key of the decoded tree has the decoded value, and a default
  stands only under a key the decoded tree lacks.
\<close>

theorem parse_returns_merged_data_on_validator_failure:
  fixes core :: QueryParamCore and host :: Host
  defines "defaults \<equiv> (case defaultValues (options core) of Some d \<Rightarrow> d | None \<Rightarrow> [])"
  defines "merged parsed \<equiv>
             objectSpread [spreadProps (applyDefaultValues core (JObj [])), spreadProps parsed]"
  assumes rejected: "validator core (JObj (merged parsed)) Serialized = Inr r" "validData r = None"
    and decoded:
      "(case compressionOptions core of
          None \<Rightarrow> True | Some co \<Rightarrow> \<not> hasCompressedData host queryString (paramName co))
         \<and> queryStringToObject queryString = Inr parsed
       \<or> (\<exists>co compressed decompressed.
             compressionOptions core = Some co
           \<and> getCompressedData host queryString (paramName co) = Some compressed
           \<and> compressed \<noteq> []
           \<and> decompress co compressed = Inr decompressed
           \<and> jsonParse host decompressed = Inr parsed)"
  shows "parseQueryParams host core queryString = Inr (JObj (merged parsed))
       \<and> (distinct (map fst defaults) \<and> distinct (map fst (spreadProps parsed)) \<longrightarrow>
            map_of (merged parsed) k =
              (case map_of (spreadProps parsed) k of Some v \<Rightarrow> Some v | None \<Rightarrow> map_of defaults k))"
proof
  show "parseQueryParams host core queryString = Inr (JObj (merged parsed))"
    using decoded
  proof (elim disjE conjE exE)
    assume plain: "case compressionOptions core of
            None \<Rightarrow> True | Some co \<Rightarrow> \<not> hasCompressedData host queryString (paramName co)"
      and q: "queryStringToObject queryString = Inr parsed"
    from plain have "parseQueryParams host core queryString
        = parsedSerializedParams core queryString (applyDefaultValues core (JObj []))"
      by (auto simp: parseQueryParams_def split: option.splits)
    also have "\<dots> = Inr (JObj (merged parsed))"
      using q rejected by (simp add: parsedSerializedParams_def merged_def ebind_def structuredClone_def)
    finally show ?thesis .
  next
    fix co compressed decompressed
    assume co: "compressionOptions core = Some co"
      and marker: "getCompressedData host queryString (paramName co) = Some compressed"
      and ne: "compressed \<noteq> []"
      and dz: "decompress co compressed = Inr decompressed"
      and jp: "jsonParse host decompressed = Inr parsed"
    have present: "hasCompressedData host queryString (paramName co)"
      using marker by (auto simp: hasCompressedData_def getCompressedData_def dest!: map_of_SomeD
          intro: rev_image_eqI)
    with co have "parseQueryParams host core queryString
        = parseCompressedParams host core queryString (applyDefaultValues core (JObj []))"
      by (simp add: parseQueryParams_def)
    also have "\<dots> = Inr (JObj (merged parsed))"
      using co marker ne dz jp rejected
      by (simp add: parseCompressedParams_def merged_def ebind_def structuredClone_def)
    finally show ?thesis .
  qed
  show "distinct (map fst defaults) \<and> distinct (map fst (spreadProps parsed)) \<longrightarrow>
          map_of (merged parsed) k =
            (case map_of (spreadProps parsed) k of Some v \<Rightarrow> Some v | None \<Rightarrow> map_of defaults k)"
  proof
    assume d: "distinct (map fst defaults) \<and> distinct (map fst (spreadProps parsed))"
    have "map_of (objectSpread [defaults]) = map_of defaults"
      using d map_of_spread [of defaults "[]"] by (simp add: objectSpread_def)
    moreover have "merged parsed = objectSpread [objectSpread [defaults], spreadProps parsed]"
      by (simp add: merged_def applyDefaultValues_empty defaults_def)
    ultimately show "map_of (merged parsed) k =
            (case map_of (spreadProps parsed) k of Some v \<Rightarrow> Some v | None \<Rightarrow> map_of defaults k)"
      using d map_of_objectSpread [OF distinct_objectSpread, of "spreadProps parsed" "[defaults]" k]
      by (simp split: option.splits)
  qed
qed

text \<open>
  With the defaults \<open>{page: 1, sort: "asc"}\<close> and a validator that rejects everything: the
  query \<open>?page=2&q=x\<close> gives \<open>{page: "2", sort: "asc", q: "x"}\<close>, and the compressed payload
  \<open>{"page":2}\<close> gives \<open>{page: 2, sort: "asc"}\<close>.
\<close>

theorem parse_returns_merged_data_on_validator_failure_witness:
  "parseQueryParams bareHost (listingCore rejectingValidator None) ''?page=2&q=x''
     = Inr (JObj [(''page'', JStr ''2''), (''sort'', JStr ''asc''), (''q'', JStr ''x'')])
   \<and> parseQueryParams markerHost
       (listingCore rejectingValidator (Some (\<lambda>s. Inr (''{'' @ dq @ ''page'' @ dq @ '':2}''))))
       ''?qs=abc''
     = Inr (JObj [(''page'', JNum 2), (''sort'', JStr ''asc'')])"
proof
  have q: "queryStringToObject ''?page=2&q=x'' = Inr (JObj [(''page'', JStr ''2''), (''q'', JStr ''x'')])"
    by (simp add: codec_eval)
  show "parseQueryParams bareHost (listingCore rejectingValidator None) ''?page=2&q=x''
     = Inr (JObj [(''page'', JStr ''2''), (''sort'', JStr ''asc''), (''q'', JStr ''x'')])"
    using parse_returns_merged_data_on_validator_failure
      [of "listingCore rejectingValidator None"
        "JObj [(''page'', JStr ''2''), (''q'', JStr ''x'')]"
        "\<lparr> success = False, data = None, errors = Some (JStr ''invalid'') \<rparr>"
        bareHost "''?page=2&q=x''"] q
    by (simp add: listingCore_def newQueryParamCore_def rejectingValidator_def validData_def
        applyDefaultValues_def objectSpread_def structuredClone_def codec_eval)
  show "parseQueryParams markerHost
       (listingCore rejectingValidator (Some (\<lambda>s. Inr (''{'' @ dq @ ''page'' @ dq @ '':2}''))))
       ''?qs=abc''
     = Inr (JObj [(''page'', JNum 2), (''sort'', JStr ''asc'')])"
    using parse_returns_merged_data_on_validator_failure
      [of "listingCore rejectingValidator (Some (\<lambda>s. Inr (''{'' @ dq @ ''page'' @ dq @ '':2}'')))"
        "JObj [(''page'', JNum 2)]"
        "\<lparr> success = False, data = None, errors = Some (JStr ''invalid'') \<rparr>"
        markerHost "''?qs=abc''"] markerHost_get
    by (simp add: listingCore_def newQueryParamCore_def rejectingValidator_def validData_def
        applyDefaultValues_def objectSpread_def structuredClone_def markerHost_def exampleParse_def
        exampleSearchParams_def dq_def codec_eval)
qed

section \<open>Lemmas about the codec\<close>

subsection \<open>Splitting and joining\<close>

lemma splitOn_nonempty [simp]: "splitOn sep s \<noteq> []"
  by (induction s) (auto split: list.splits)

lemma splitOn_plain: "sep \<notin> set s \<Longrightarrow> splitOn sep s = [s]"
  by (induction s) auto

lemma splitOn_append: "splitOn sep (a @ sep # b) = splitOn sep a @ splitOn sep b"
  by (induction a) (auto split: list.splits)

lemma splitOn_fields:
  "sep \<notin> set f \<Longrightarrow> splitOn sep (f @ sep # rest) = f # splitOn sep rest"
  by (simp add: splitOn_append splitOn_plain)

definition pairsOf :: "string \<Rightarrow> string list" where
  "pairsOf s = filter (\<lambda>p. p \<noteq> []) (splitOn CHR ''&'' s)"

lemma pairsOf_plain: "CHR ''&'' \<notin> set s \<Longrightarrow> pairsOf s = (if s = [] then [] else [s])"
  by (simp add: pairsOf_def splitOn_plain)

lemma pairsOf_append: "pairsOf (a @ CHR ''&'' # b) = pairsOf a @ pairsOf b"
  by (simp add: pairsOf_def splitOn_append)

lemma pairsOf_join: "pairsOf (joinWith ''&'' parts) = concat (map pairsOf parts)"
proof (induction parts)
  case Nil
  then show ?case by (simp add: pairsOf_def)
next
  case (Cons x xs)
  then show ?case by (cases xs) (simp_all add: pairsOf_append)
qed

subsection \<open>Percent coding\<close>

lemma below_16:
  "(d::nat) < 16 \<Longrightarrow> d = 0 \<or> d = 1 \<or> d = 2 \<or> d = 3 \<or> d = 4 \<or> d = 5 \<or> d = 6 \<or> d = 7
     \<or> d = 8 \<or> d = 9 \<or> d = 10 \<or> d = 11 \<or> d = 12 \<or> d = 13 \<or> d = 14 \<or> d = 15"
  by arith

lemma hexVal_hexDigit: "d < 16 \<Longrightarrow> hexVal (hexDigit d) = Some d"
  by (drule below_16, elim disjE) (simp_all add: hexVal_def hexDigit_def)

lemma escapeAt_pct: "b < 256 \<Longrightarrow> escapeAt (pct b @ t) = Some (b, t)"
proof -
  assume b: "b < 256"
  then have "b div 16 < 16" "b mod 16 < 16" by simp_all
  then show ?thesis by (simp add: pct_def hexVal_hexDigit)
qed

lemma unreserved_not_percent: "unreserved c \<Longrightarrow> c \<noteq> CHR ''%''"
  by (auto simp: unreserved_def)

lemma decode_encodeChar:
  "decodeURIComponent (encodeChar c @ t) = ebind (decodeURIComponent t) (\<lambda>r. Inr (c # r))"
proof -
  let ?n = "of_char c :: nat"
  have n: "?n < 256" by simp
  consider "unreserved c" | "\<not> unreserved c" "?n < 128" | "\<not> unreserved c" "128 \<le> ?n"
    by linarith
  then show ?thesis
  proof cases
    case 1
    then show ?thesis by (simp add: encodeChar_def unreserved_not_percent)
  next
    case 2
    have "decodeURIComponent (pct ?n @ t) = ebind (decodeURIComponent t) (\<lambda>r. Inr (char_of ?n # r))"
      using 2 escapeAt_pct [OF n, of t] by (simp add: pct_def)
    with 2 show ?thesis by (simp add: encodeChar_def)
  next
    case 3
    let ?b = "192 + ?n div 64" and ?b2 = "128 + ?n mod 64"
    have q: "?n div 64 < 4" using nat_of_char_less_256 [of c] by arith
    with 3 have b: "?b < 256" "194 \<le> ?b" "?b < 224" by simp_all
    have b2: "?b2 < 256" "128 \<le> ?b2" "?b2 < 192" by simp_all
    have cont: "continuation (Suc 0) (pct ?b2 @ t) = Some ([?b2], t)"
      using escapeAt_pct [OF b2(1), of t] by simp
    have cp: "codePoint ?b [?b2] = ?n" using q by (simp add: codePoint_def)
    have "decodeURIComponent (pct ?b @ pct ?b2 @ t)
          = ebind (decodeURIComponent t) (\<lambda>r. Inr (char_of ?n # r))"
      using escapeAt_pct [OF b(1), of "pct ?b2 @ t"] b cont cp n
      by (simp add: pct_def [of ?b] utf8Valid_def)
    with 3 show ?thesis by (simp add: encodeChar_def Let_def)
  qed
qed

lemma decode_encode_append:
  "decodeURIComponent (encodeURIComponent s @ t) = ebind (decodeURIComponent t) (\<lambda>r. Inr (s @ r))"
proof (induction s)
  case Nil
  then show ?case by (cases "decodeURIComponent t") (simp_all add: encodeURIComponent_def ebind_def)
next
  case (Cons c s)
  have "decodeURIComponent (encodeURIComponent (c # s) @ t)
        = decodeURIComponent (encodeChar c @ (encodeURIComponent s @ t))"
    by (simp add: encodeURIComponent_def)
  also have "\<dots> = ebind (decodeURIComponent (encodeURIComponent s @ t)) (\<lambda>r. Inr (c # r))"
    by (rule decode_encodeChar)
  also have "\<dots> = ebind (decodeURIComponent t) (\<lambda>r. Inr ((c # s) @ r))"
    by (cases "decodeURIComponent t") (simp_all add: Cons.IH ebind_def)
  finally show ?case .
qed

lemma decode_plain: "CHR ''%'' \<notin> set t \<Longrightarrow> decodeURIComponent t = Inr t"
  by (induction t) (auto simp: ebind_def)

lemma decode_encode: "decodeURIComponent (encodeURIComponent s) = Inr s"
  using decode_encode_append [of s "[]"] by (simp add: ebind_def)

lemma decode_encode_plain:
  "CHR ''%'' \<notin> set t \<Longrightarrow> decodeURIComponent (encodeURIComponent s @ t) = Inr (s @ t)"
  by (simp add: decode_encode_append decode_plain ebind_def)

definition wireChar :: "char \<Rightarrow> bool" where
  "wireChar c = (c \<notin> set ''&=[]?'')"

lemma hexDigit_wire: "d < 16 \<Longrightarrow> wireChar (hexDigit d)"
  by (drule below_16, elim disjE) (simp_all add: wireChar_def hexDigit_def)

lemma pct_wire: "b < 256 \<Longrightarrow> list_all wireChar (pct b)"
proof -
  assume b: "b < 256"
  then have "b div 16 < 16" "b mod 16 < 16" by simp_all
  then show ?thesis by (simp add: pct_def hexDigit_wire) (simp add: wireChar_def)
qed

lemma encodeChar_wire: "list_all wireChar (encodeChar c)"
proof -
  let ?n = "of_char c :: nat"
  have n: "?n < 256" by simp
  have "unreserved c \<Longrightarrow> wireChar c" by (auto simp: unreserved_def wireChar_def)
  moreover have "list_all wireChar (pct ?n)" using n by (rule pct_wire)
  moreover have "?n div 64 < 4" using nat_of_char_less_256 [of c] by arith
  then have "list_all wireChar (pct (192 + ?n div 64))" by (intro pct_wire) simp
  moreover have "list_all wireChar (pct (128 + ?n mod 64))" by (intro pct_wire) simp
  ultimately show ?thesis by (simp add: encodeChar_def Let_def)
qed

lemma encode_wire: "list_all wireChar (encodeURIComponent s)"
  by (induction s) (simp_all add: encodeURIComponent_def encodeChar_wire)

lemma encode_free:
  "CHR ''&'' \<notin> set (encodeURIComponent s)" "CHR ''='' \<notin> set (encodeURIComponent s)"
  "CHR ''?'' \<notin> set (encodeURIComponent s)"
  using encode_wire [of s] by (auto simp: list_all_iff wireChar_def)

subsection \<open>The bracket tokenizer\<close>

lemma takeWhile_run:
  "list_all notBracket run \<Longrightarrow> rest = [] \<or> \<not> notBracket (hd rest) \<Longrightarrow>
   takeWhile notBracket (run @ rest) = run \<and> dropWhile notBracket (run @ rest) = rest"
  by (cases rest) (auto simp: list_all_iff takeWhile_append2 dropWhile_append2)

lemma match_run:
  assumes "run \<noteq> []" "list_all notBracket run" "rest = [] \<or> \<not> notBracket (hd rest)"
  shows "matchSegments (run @ rest) = run # matchSegments rest"
proof -
  obtain c cs where run: "run = c # cs" using assms(1) by (cases run) auto
  with assms(2) have c: "notBracket c" and cs: "list_all notBracket cs" by simp_all
  from takeWhile_run [OF cs assms(3)] c run show ?thesis by simp
qed

definition bracket :: "string \<Rightarrow> string" where
  "bracket x = CHR ''['' # x @ '']''"

lemma match_group:
  assumes "list_all notBracket x"
  shows "matchSegments (bracket x @ rest) = bracket x # matchSegments rest"
proof -
  have "takeWhile notBracket (x @ CHR '']'' # rest) = x"
    and "dropWhile notBracket (x @ CHR '']'' # rest) = CHR '']'' # rest"
    using takeWhile_run [OF assms, of "CHR '']'' # rest"] by (simp_all add: notBracket_def)
  then show ?thesis by (simp add: bracket_def notBracket_def)
qed

lemma match_groups:
  "\<forall>x\<in>set ks. list_all notBracket x \<Longrightarrow> matchSegments (concat (map bracket ks)) = map bracket ks"
  by (induction ks) (simp_all add: match_group)

fun pathString :: "string list \<Rightarrow> string" where
  "pathString [] = []"
| "pathString (k # ks) = k @ concat (map bracket ks)"

lemma match_path:
  assumes "k \<noteq> []" "list_all notBracket k" "\<forall>x\<in>set ks. list_all notBracket x"
  shows "matchSegments (pathString (k # ks)) = k # map bracket ks"
proof -
  have "concat (map bracket ks) = [] \<or> \<not> notBracket (hd (concat (map bracket ks)))"
    by (cases ks) (simp_all add: bracket_def notBracket_def)
  from match_run [OF assms(1,2) this] match_groups [OF assms(3)] show ?thesis by simp
qed

lemma cleanKey_plain: "list_all notBracket k \<Longrightarrow> cleanKey k = k"
  by (simp add: cleanKey_def list_all_iff)

lemma cleanKey_bracket: "list_all notBracket x \<Longrightarrow> cleanKey (bracket x) = x"
  by (simp add: cleanKey_def bracket_def list_all_iff notBracket_def)

lemma filter_takeWhile_dropWhile:
  "takeWhile P xs @ filter P (dropWhile P xs) = filter P xs"
  by (induction xs) auto

lemma filter_takeWhile_same [simp]: "filter P (takeWhile P xs) = takeWhile P xs"
  by (induction xs) auto

lemma clean_segments: "concat (map cleanKey (matchSegments key)) = filter notBracket key"
proof (induction key rule: matchSegments.induct)
  case 1
  then show ?case by simp
next
  case (2 c cs)
  show ?case
  proof (cases "notBracket c")
    case True
    have "cleanKey (takeWhile notBracket (c # cs)) = c # takeWhile notBracket cs"
      using True by (simp add: cleanKey_def)
    moreover have "concat (map cleanKey (matchSegments (dropWhile notBracket cs)))
                   = filter notBracket (dropWhile notBracket cs)"
      using 2(1) True by simp
    ultimately show ?thesis
      using True filter_takeWhile_dropWhile [of notBracket cs] by simp
  next
    case False
    show ?thesis
    proof (cases "c = CHR ''[''")
      case open_bracket: True
      show ?thesis
      proof (cases "dropWhile notBracket cs")
        case Nil
        with 2(2) False open_bracket show ?thesis by (simp del: dropWhile_eq_Nil_conv)
      next
        case (Cons d rest)
        show ?thesis
        proof (cases "d = CHR '']''")
          case close_bracket: True
          have ih: "concat (map cleanKey (matchSegments rest)) = filter notBracket rest"
            using 2(3) False open_bracket Cons close_bracket by simp
          have seg: "cleanKey (c # takeWhile notBracket cs @ [d]) = takeWhile notBracket cs"
            using open_bracket close_bracket by (simp add: cleanKey_def notBracket_def)
          have "filter notBracket cs = takeWhile notBracket cs @ filter notBracket rest"
            using filter_takeWhile_dropWhile [of notBracket cs] Cons close_bracket
            by (simp add: notBracket_def)
          with ih seg show ?thesis
            using False open_bracket Cons close_bracket by simp
        next
          case other: False
          with 2(4) False open_bracket Cons show ?thesis by simp
        qed
      qed
    next
      case stray: False
      with 2(5) False show ?thesis by simp
    qed
  qed
qed

subsection \<open>One pair\<close>

text \<open>What \<open>processPair\<close> decodes from a pair before it touches the tree: the key segments and the value.\<close>

definition pairTarget :: "string \<Rightarrow> exn + (string list \<times> jsval) option" where
  "pairTarget queryPair =
     ebind (mapE decodeURIComponent (splitOn CHR ''='' queryPair)) (\<lambda>fields.
       let key = (case fields of [] \<Rightarrow> [] | k # _ \<Rightarrow> k);
           v = (case fields of _ # x # _ \<Rightarrow> JStr x | _ \<Rightarrow> JUndefined)
       in if key = [] then Inr None
          else (case matchSegments key of [] \<Rightarrow> Inr None | keySegments \<Rightarrow> Inr (Some (keySegments, v))))"

lemma processPair_target:
  "processPair obj queryPair =
     ebind (pairTarget queryPair) (\<lambda>t. case t of None \<Rightarrow> Inr obj
                                       | Some (segs, v) \<Rightarrow> assignPath obj segs v)"
  by (cases "mapE decodeURIComponent (splitOn CHR ''='' queryPair)")
     (auto simp: processPair_def pairTarget_def ebind_def Let_def split: list.splits)

lemma split_join:
  "fs \<noteq> [] \<Longrightarrow> \<forall>f\<in>set fs. sep \<notin> set f \<Longrightarrow> splitOn sep (joinWith [sep] fs) = fs"
proof (induction fs)
  case Nil
  then show ?case by simp
next
  case (Cons f fs)
  show ?case
  proof (cases fs)
    case Nil
    with Cons.prems show ?thesis by (simp add: splitOn_plain)
  next
    case (Cons g gs)
    with Cons.IH Cons.prems have "splitOn sep (joinWith [sep] fs) = fs" by simp
    with Cons Cons.prems show ?thesis by (simp add: splitOn_fields)
  qed
qed

subsection \<open>Literal keys and values\<close>

text \<open>
  A literal character reaches the decoder as itself: it is no escape, pair separator or
  field separator. \<open>nonNegativeIntegerText\<close> is the reading of the specification for a
  segment that parses as a non-negative integer: a non-empty run of decimal digits.
\<close>

definition literalChar :: "char \<Rightarrow> bool" where
  "literalChar c = (c \<notin> set ''%&='')"


lemma literal_free:
  "list_all literalChar s \<Longrightarrow>
   CHR ''%'' \<notin> set s \<and> CHR ''&'' \<notin> set s \<and> CHR ''='' \<notin> set s"
  by (auto simp: list_all_iff literalChar_def)

subsection \<open>Decimal numerals\<close>

lemma below_10:
  "(d::nat) < 10 \<Longrightarrow> d = 0 \<or> d = 1 \<or> d = 2 \<or> d = 3 \<or> d = 4 \<or> d = 5 \<or> d = 6 \<or> d = 7
     \<or> d = 8 \<or> d = 9"
  by arith

lemma digitChar_code: "d < 10 \<Longrightarrow> (of_char (digitChar d) :: nat) = 48 + d"
  by (drule below_10, elim disjE) (simp_all add: digitChar_def)

lemma digitChar_digit: "d < 10 \<Longrightarrow> isDigit (digitChar d)"
  by (simp add: isDigit_def digitChar_code)

lemma showNat_digits: "list_all isDigit (showNat n)"
proof (induction n rule: showNat.induct)
  case (1 n)
  show ?case
  proof (cases "n < 10")
    case True
    then show ?thesis by (subst showNat.simps) (simp add: digitChar_digit)
  next
    case False
    then show ?thesis using 1 by (subst showNat.simps) (simp add: digitChar_digit)
  qed
qed

lemma showNat_nonempty: "showNat n \<noteq> []"
  by (subst showNat.simps) simp

lemma digit_chars: "isDigit c \<Longrightarrow> notBracket c \<and> literalChar c \<and> \<not> isWhiteSpace c
    \<and> c \<noteq> CHR ''+'' \<and> c \<noteq> CHR ''-''"
proof -
  assume "isDigit c"
  then have c: "48 \<le> (of_char c :: nat)" "(of_char c :: nat) \<le> 57" by (simp_all add: isDigit_def)
  have "c \<noteq> d" if "(of_char d :: nat) < 48 \<or> 57 < (of_char d :: nat)" for d
    using that c by auto
  then show ?thesis
    by (auto simp: notBracket_def literalChar_def isWhiteSpace_def) (use c in auto)
qed

lemma showNat_notBracket: "list_all notBracket (showNat n)"
  using showNat_digits [of n] by (auto simp: list_all_iff digit_chars)

lemma showNat_literal: "list_all literalChar (showNat n)"
  using showNat_digits [of n] by (auto simp: list_all_iff digit_chars)

lemma readNat_snoc: "readNat acc (s @ [c]) = 10 * readNat acc s + (of_char c - 48)"
  by (induction s arbitrary: acc) simp_all

lemma readNat_showNat: "readNat 0 (showNat n) = n"
proof (induction n rule: showNat.induct)
  case (1 n)
  show ?case
  proof (cases "n < 10")
    case True
    then show ?thesis by (subst showNat.simps) (simp add: digitChar_code)
  next
    case False
    then have "readNat 0 (showNat (n div 10)) = n div 10" using 1 by simp
    with False show ?thesis
      by (subst showNat.simps) (simp add: readNat_snoc digitChar_code)
  qed
qed

lemma showNat_leading: "0 < n \<Longrightarrow> hd (showNat n) \<noteq> CHR ''0''"
proof (induction n rule: showNat.induct)
  case (1 n)
  show ?case
  proof (cases "n < 10")
    case True
    with 1(2) have "(of_char (digitChar n) :: nat) \<noteq> 48" by (simp add: digitChar_code)
    then have "digitChar n \<noteq> CHR ''0''" by auto
    with True show ?thesis by (subst showNat.simps) simp
  next
    case False
    then have "hd (showNat (n div 10)) \<noteq> CHR ''0''" using 1(1) by simp
    with False show ?thesis
      by (subst showNat.simps) (simp add: showNat_nonempty)
  qed
qed

lemma showNat_zero: "showNat 0 = ''0''"
  by (subst showNat.simps) (simp add: digitChar_def)

lemma indexOfKey_showNat: "n < 2 ^ 32 - 1 \<Longrightarrow> indexOfKey (showNat n) = Some n"
proof -
  assume n: "n < 2 ^ 32 - 1"
  have "showNat n = ''0'' \<or> hd (showNat n) \<noteq> CHR ''0''"
    using showNat_leading [of n] showNat_zero by (cases "n = 0") auto
  with n show ?thesis
    by (simp add: indexOfKey_def showNat_nonempty showNat_digits readNat_showNat)
qed

lemma trimWS_digits: "list_all isDigit s \<Longrightarrow> trimWS s = s"
proof -
  assume d: "list_all isDigit s"
  have drop: "dropWhile isWhiteSpace t = t" if "list_all isDigit t" for t
    using that by (cases t) (auto simp: digit_chars)
  have "list_all isDigit (rev s)" using d by (simp add: list_all_iff)
  with d show ?thesis by (simp add: trimWS_def drop)
qed

lemma numericString_digits: "s \<noteq> [] \<Longrightarrow> list_all isDigit s \<Longrightarrow> numericString s"
proof -
  assume ne: "s \<noteq> []" and d: "list_all isDigit s"
  then obtain c r where s: "s = c # r" by (cases s) auto
  with d have c: "isDigit c" by simp
  have tw: "takeWhile isDigit s = s" "dropWhile isDigit s = []"
    using d by (simp_all add: list_all_iff)
  have u: "unsignedDecimal s" unfolding unsignedDecimal_def Let_def tw using ne by simp
  have tr: "trimWS s = s" by (rule trimWS_digits [OF d])
  have "(case s of [] \<Rightarrow> s | c # r \<Rightarrow> if c = CHR ''+'' \<or> c = CHR ''-'' then r else s) = s"
    using s digit_chars [OF c] by simp
  with u show ?thesis unfolding numericString_def Let_def tr by simp
qed

lemma numericString_showNat: "numericString (showNat n)"
  by (rule numericString_digits [OF showNat_nonempty showNat_digits])

subsection \<open>Values the codec carries\<close>

text \<open>
  The mappings for which decoding inverts encoding. A key is plain when it has no bracket
  and is not \<open>__proto__\<close>. Inside a mapping, a value is a string, number or boolean, a
  non-empty mapping whose first key is not numeric, or a non-empty sequence without holes
  or named properties; \<open>null\<close> and \<open>undefined\<close> do not occur, and a key that holds a mapping or
  sequence names no member of \<open>Object.prototype\<close>. At the top level a key is not empty.
\<close>

definition plainKey :: "string \<Rightarrow> bool" where
  "plainKey k = (list_all notBracket k \<and> k \<noteq> ''__proto__'')"

fun codecValue :: "jsval \<Rightarrow> bool"
  and codecProps :: "(string \<times> jsval) list \<Rightarrow> bool"
  and codecItems :: "jsval option list \<Rightarrow> bool"
where
  "codecValue (JObj kvs) = (kvs \<noteq> [] \<and> \<not> numericString (fst (hd kvs)) \<and> codecProps kvs)"
| "codecValue (JArr els named) = (els \<noteq> [] \<and> named = [] \<and> codecItems els)"
| "codecValue JUndefined = False"
| "codecValue JNull = False"
| "codecValue (JBool b) = True"
| "codecValue (JNum n) = True"
| "codecValue (JStr s) = True"
| "codecProps [] = True"
| "codecProps ((k, v) # rest) =
     (plainKey k \<and> (isContainer v \<longrightarrow> k \<notin> set objectPrototypeKeys) \<and> codecValue v
      \<and> codecProps rest)"
| "codecItems [] = True"
| "codecItems (None # rest) = False"
| "codecItems (Some v # rest) = (codecValue v \<and> codecItems rest)"

definition codecMapping :: "(string \<times> jsval) list \<Rightarrow> bool" where
  "codecMapping kvs = (list_all (\<lambda>(k, v). k \<noteq> []) kvs \<and> codecProps kvs)"

subsection \<open>The leaves of a value\<close>

text \<open>
  The scalars of a value with the path of keys and indices that leads to each, in the order
  in which the encoder emits them.
\<close>

fun leafPaths :: "jsval \<Rightarrow> (string list \<times> string) list"
  and propLeaves :: "(string \<times> jsval) list \<Rightarrow> (string list \<times> string) list"
  and itemLeaves :: "nat \<Rightarrow> jsval option list \<Rightarrow> (string list \<times> string) list"
where
  "leafPaths (JObj kvs) = propLeaves kvs"
| "leafPaths (JArr els named) = itemLeaves 0 els"
| "leafPaths JUndefined = []"
| "leafPaths JNull = []"
| "leafPaths (JBool b) = [([], String (JBool b))]"
| "leafPaths (JNum n) = [([], String (JNum n))]"
| "leafPaths (JStr s) = [([], s)]"
| "propLeaves [] = []"
| "propLeaves ((k, v) # rest) = map (\<lambda>(p, s). (k # p, s)) (leafPaths v) @ propLeaves rest"
| "itemLeaves i [] = []"
| "itemLeaves i (None # rest) = itemLeaves (Suc i) rest"
| "itemLeaves i (Some v # rest) =
     map (\<lambda>(p, s). (showNat i # p, s)) (leafPaths v) @ itemLeaves (Suc i) rest"

fun segments :: "string list \<Rightarrow> string list" where
  "segments [] = []"
| "segments (k # ks) = k # map bracket ks"

definition goodPath :: "string list \<Rightarrow> bool" where
  "goodPath q = (q \<noteq> [] \<and> hd q \<noteq> [] \<and> (\<forall>k\<in>set q. list_all notBracket k))"

definition target :: "string list \<Rightarrow> string list \<times> string \<Rightarrow> (string list \<times> jsval) option" where
  "target path leaf = Some (segments (path @ fst leaf), JStr (snd leaf))"

subsection \<open>Encoding emits one pair per leaf\<close>

lemma mapE_append:
  "mapE f (xs @ ys) = ebind (mapE f xs) (\<lambda>a. ebind (mapE f ys) (\<lambda>b. Inr (a @ b)))"
  by (induction xs) (auto simp: ebind_def split: sum.splits)

lemma mapE_concat:
  "(\<And>x. x \<in> set xs \<Longrightarrow> mapE f (g x) = Inr (h x)) \<Longrightarrow>
   mapE f (concat (map g xs)) = Inr (concat (map h xs))"
  by (induction xs) (simp_all add: mapE_append ebind_def)

lemma concat_map_concat:
  "concat (map f (concat (map g xs))) = concat (map (\<lambda>x. concat (map f (g x))) xs)"
  by (induction xs) simp_all

lemma fullKeyOf_path:
  "goodPath (path @ [key]) \<Longrightarrow> fullKeyOf (pathString path) key = pathString (path @ [key])"
  by (cases path) (simp_all add: fullKeyOf_def goodPath_def bracket_def)

lemma goodPath_snoc:
  "goodPath path \<Longrightarrow> list_all notBracket k \<Longrightarrow> goodPath (path @ [k])"
  by (cases path) (auto simp: goodPath_def)

lemma pathString_index:
  "goodPath path \<Longrightarrow> pathString path @ ''['' @ k @ '']'' = pathString (path @ [k])"
  by (cases path) (simp_all add: goodPath_def bracket_def)

lemma match_goodPath: "goodPath q \<Longrightarrow> matchSegments (pathString q) = segments q"
proof -
  assume g: "goodPath q"
  then obtain k ks where q: "q = k # ks" by (cases q) (auto simp: goodPath_def)
  with g show ?thesis using match_path [of k ks] by (simp add: goodPath_def)
qed

lemma pathString_nonempty: "goodPath q \<Longrightarrow> pathString q \<noteq> []"
  by (cases q) (auto simp: goodPath_def)

lemma pairTarget_fields:
  assumes "CHR ''='' \<notin> set a" "CHR ''='' \<notin> set b"
    and "decodeURIComponent a = Inr key" "decodeURIComponent b = Inr v" "goodPath q"
    and "key = pathString q"
  shows "pairTarget (a @ ''='' @ b) = Inr (Some (segments q, JStr v))"
proof -
  have "splitOn CHR ''='' (a @ CHR ''='' # b) = [a, b]"
    using assms(1,2) by (simp add: splitOn_fields splitOn_plain)
  moreover obtain k ks where "segments q = k # ks"
    using assms(5) by (cases q) (auto simp: goodPath_def)
  ultimately show ?thesis
    using assms(3,4,6) pathString_nonempty [OF assms(5)] match_goodPath [OF assms(5)]
    by (simp add: pairTarget_def ebind_def)
qed

lemma scalar_pair:
  assumes "goodPath q"
  shows "mapE pairTarget (pairsOf (encodeURIComponent (pathString q) @ ''='' @ encodeURIComponent s))
         = Inr [Some (segments q, JStr s)]"
proof -
  let ?pair = "encodeURIComponent (pathString q) @ ''='' @ encodeURIComponent s"
  have "CHR ''&'' \<notin> set ?pair" by (simp add: encode_free)
  then have "pairsOf ?pair = [?pair]" by (simp add: pairsOf_plain)
  moreover have "pairTarget ?pair = Inr (Some (segments q, JStr s))"
    by (rule pairTarget_fields [OF encode_free(2) encode_free(2) decode_encode decode_encode assms])
       simp
  ultimately show ?thesis by (simp add: ebind_def)
qed

lemma scalar_item:
  assumes "goodPath q"
  shows "mapE pairTarget
           (pairsOf (encodeURIComponent (pathString q) @ ''['' @ showNat i @ '']='' @ encodeURIComponent s))
         = Inr [Some (segments (q @ [showNat i]), JStr s)]"
proof -
  let ?key = "encodeURIComponent (pathString q) @ ''['' @ showNat i @ '']''"
  let ?pair = "?key @ ''='' @ encodeURIComponent s"
  have lit: "CHR ''&'' \<notin> set (showNat i)" "CHR ''='' \<notin> set (showNat i)" "CHR ''%'' \<notin> set (showNat i)"
    using literal_free [OF showNat_literal [of i]] by simp_all
  have "CHR ''&'' \<notin> set ?pair" using lit by (simp add: encode_free)
  then have "pairsOf ?pair = [?pair]" by (simp add: pairsOf_plain)
  moreover have "pairTarget ?pair = Inr (Some (segments (q @ [showNat i]), JStr s))"
  proof (rule pairTarget_fields)
    show "CHR ''='' \<notin> set ?key" using lit by (simp add: encode_free)
    show "CHR ''='' \<notin> set (encodeURIComponent s)" by (rule encode_free)
    show "decodeURIComponent ?key = Inr (pathString q @ ''['' @ showNat i @ '']'')"
      using lit decode_encode_plain [of "''['' @ showNat i @ '']''" "pathString q"] by simp
    show "decodeURIComponent (encodeURIComponent s) = Inr s" by (rule decode_encode)
    show "goodPath (q @ [showNat i])" using assms by (rule goodPath_snoc) (rule showNat_notBracket)
    show "pathString q @ ''['' @ showNat i @ '']'' = pathString (q @ [showNat i])"
      using assms by (rule pathString_index)
  qed
  ultimately show ?thesis by (simp add: ebind_def)
qed


lemma codecProps_mem:
  "codecProps kvs \<Longrightarrow> (k, v) \<in> set kvs \<Longrightarrow>
   plainKey k \<and> (isContainer v \<longrightarrow> k \<notin> set objectPrototypeKeys) \<and> codecValue v"
  by (induction kvs) auto

lemma codecItems_mem: "codecItems els \<Longrightarrow> e \<in> set els \<Longrightarrow> \<exists>v. e = Some v \<and> codecValue v"
proof (induction els)
  case Nil
  then show ?case by simp
next
  case (Cons x els)
  then show ?case by (cases x) auto
qed

lemma indexEntries_codec:
  "codecItems els \<Longrightarrow> (k, v) \<in> set (indexEntries i els) \<Longrightarrow>
   codecValue v \<and> list_all notBracket k"
  by (induction i els rule: indexEntries.induct) (auto simp: showNat_notBracket)

lemma entries_codec:
  assumes "isContainer object" "codecValue object" "x \<in> set (entries object)"
  shows "list_all notBracket (fst x) \<and> codecValue (snd x)"
proof (cases object)
  case (JObj kvs)
  with assms codecProps_mem [of kvs "fst x" "snd x"] show ?thesis by (simp add: plainKey_def)
next
  case (JArr els named)
  with assms indexEntries_codec [of els "fst x" "snd x" 0] show ?thesis by simp
qed (use assms in simp_all)

lemma propLeaves_entries:
  "propLeaves kvs = concat (map (\<lambda>x. map (\<lambda>(p, s). (fst x # p, s)) (leafPaths (snd x))) kvs)"
  by (induction kvs) auto

lemma itemLeaves_entries:
  "itemLeaves i els =
   concat (map (\<lambda>x. map (\<lambda>(p, s). (fst x # p, s)) (leafPaths (snd x))) (indexEntries i els))"
  by (induction i els rule: indexEntries.induct) simp_all

lemma leafPaths_entries:
  assumes "isContainer object" "codecValue object"
  shows "leafPaths object =
         concat (map (\<lambda>x. map (\<lambda>(p, s). (fst x # p, s)) (leafPaths (snd x))) (entries object))"
proof (cases object)
  case (JObj kvs)
  then show ?thesis by (simp add: propLeaves_entries)
next
  case (JArr els named)
  with assms show ?thesis by (simp add: itemLeaves_entries)
qed (use assms in simp_all)

lemma itemLeaves_zip:
  "codecItems els \<Longrightarrow>
   itemLeaves i els =
   concat (map (\<lambda>x. map (\<lambda>(p, s). (showNat (fst x) # p, s)) (leafPaths (the (snd x))))
             (zip [i..<i + length els] els))"
proof (induction els arbitrary: i)
  case Nil
  then show ?case by simp
next
  case (Cons e els)
  then obtain v where e: "e = Some v" and rest: "codecItems els" by (cases e) auto
  have "[i..<i + length (e # els)] = i # [Suc i..<Suc i + length els]"
    by (subst upt_rec) simp
  with Cons.IH [OF rest, of "Suc i"] e show ?case by simp
qed

lemma target_concat:
  "map (target path) (concat (map (\<lambda>x. map (\<lambda>(p, s). (f x # p, s)) (L x)) xs))
   = concat (map (\<lambda>x. map (target (path @ [f x])) (L x)) xs)"
  by (induction xs) (auto simp: target_def)

declare objectToQueryString.simps [simp del] pairParts.simps [simp del] itemParts.simps [simp del]

lemma encode_targets:
  "goodPath path \<Longrightarrow> prefix = pathString path \<Longrightarrow> isContainer object \<Longrightarrow> codecValue object \<Longrightarrow>
     mapE pairTarget (pairsOf (objectToQueryString object prefix))
       = Inr (map (target path) (leafPaths object))"
  "goodPath (path' @ [fst kv]) \<Longrightarrow> prefix' = pathString path' \<Longrightarrow> codecValue (snd kv) \<Longrightarrow>
     mapE pairTarget (concat (map pairsOf (pairParts prefix' kv)))
       = Inr (map (target (path' @ [fst kv])) (leafPaths (snd kv)))"
  "goodPath path'' \<Longrightarrow> fullKey = pathString path'' \<Longrightarrow> snd it = Some v \<Longrightarrow> codecValue v \<Longrightarrow>
     mapE pairTarget (concat (map pairsOf (itemParts fullKey it)))
       = Inr (map (target (path'' @ [showNat (fst it)])) (leafPaths v))"
proof (induction object prefix and prefix' kv and fullKey it
    arbitrary: path and path' and path'' v
    rule: objectToQueryString_pairParts_itemParts.induct)
  case (1 object prefix)
  have each: "mapE pairTarget (concat (map pairsOf (pairParts prefix x)))
              = Inr (map (target (path @ [fst x])) (leafPaths (snd x)))"
    if "x \<in> set (entries object)" for x
  proof (rule "1.IH" [OF that])
    from entries_codec [OF "1.prems"(3,4) that]
    show "goodPath (path @ [fst x])" "codecValue (snd x)"
      using "1.prems"(1) by (simp_all add: goodPath_snoc)
    show "prefix = pathString path" by (rule "1.prems"(2))
  qed
  have "pairsOf (objectToQueryString object prefix)
        = concat (map (\<lambda>x. concat (map pairsOf (pairParts prefix x))) (entries object))"
    by (simp add: objectToQueryString.simps pairsOf_join concat_map_concat)
  then have "mapE pairTarget (pairsOf (objectToQueryString object prefix))
        = Inr (concat (map (\<lambda>x. map (target (path @ [fst x])) (leafPaths (snd x))) (entries object)))"
    using mapE_concat [of "entries object" pairTarget
        "\<lambda>x. concat (map pairsOf (pairParts prefix x))"
        "\<lambda>x. map (target (path @ [fst x])) (leafPaths (snd x))"] each by simp
  moreover have "map (target path) (leafPaths object)
        = concat (map (\<lambda>x. map (target (path @ [fst x])) (leafPaths (snd x))) (entries object))"
    by (simp only: leafPaths_entries [OF "1.prems"(3,4)] target_concat)
  ultimately show ?case by simp
next
  case (2 prefix key "value")
  let ?q = "path' @ [key]"
  have q: "goodPath ?q" using "2.prems"(1) by simp
  have full: "fullKeyOf prefix key = pathString ?q"
    using fullKeyOf_path [OF q] "2.prems"(2) by simp
  have cv: "codecValue value" using "2.prems"(3) by simp
  show ?case
  proof (cases "value")
    case (JObj kvs)
    have "mapE pairTarget (pairsOf (objectToQueryString value (fullKeyOf prefix key)))
          = Inr (map (target ?q) (leafPaths value))"
      using "2.IH"(1) [OF refl JObj q full] JObj cv by simp
    moreover have "concat (map pairsOf (pairParts prefix (key, value)))
          = pairsOf (objectToQueryString value (fullKeyOf prefix key))"
      using JObj by (simp add: pairParts.simps Let_def pairsOf_def)
    ultimately show ?thesis by simp
  next
    case (JArr els named)
    with cv have items: "codecItems els" and named: "named = []" by simp_all
    have each: "mapE pairTarget (concat (map pairsOf (itemParts (fullKeyOf prefix key) xa)))
                = Inr (map (target (?q @ [showNat (fst xa)])) (leafPaths (the (snd xa))))"
      if "xa \<in> set (zip [0..<length els] els)" for xa
    proof -
      from that have "snd xa \<in> set els"
        using set_zip_rightD [of "fst xa" "snd xa" "[0..<length els]" els] by simp
      with codecItems_mem [OF items] obtain v where v: "snd xa = Some v" "codecValue v" by blast
      from "2.IH"(2) [OF refl JArr that q full v] v show ?thesis by simp
    qed
    have "concat (map pairsOf (pairParts prefix (key, value)))
          = concat (map (\<lambda>xa. concat (map pairsOf (itemParts (fullKeyOf prefix key) xa)))
                     (zip [0..<length els] els))"
      using JArr by (simp add: pairParts.simps Let_def concat_map_concat)
    then have "mapE pairTarget (concat (map pairsOf (pairParts prefix (key, value))))
          = Inr (concat (map (\<lambda>xa. map (target (?q @ [showNat (fst xa)])) (leafPaths (the (snd xa))))
                          (zip [0..<length els] els)))"
      using mapE_concat [of "zip [0..<length els] els" pairTarget
          "\<lambda>xa. concat (map pairsOf (itemParts (fullKeyOf prefix key) xa))"
          "\<lambda>xa. map (target (?q @ [showNat (fst xa)])) (leafPaths (the (snd xa)))"] each by simp
    moreover have "map (target ?q) (leafPaths value)
          = concat (map (\<lambda>xa. map (target (?q @ [showNat (fst xa)])) (leafPaths (the (snd xa))))
                          (zip [0..<length els] els))"
      using JArr itemLeaves_zip [OF items, of 0]
      by (simp add: target_concat)
    ultimately show ?thesis by simp
  next
    case (JBool b)
    then show ?thesis
      using scalar_pair [OF q, of "String value"] full
      by (simp add: pairParts.simps Let_def target_def)
  next
    case (JNum n)
    then show ?thesis
      using scalar_pair [OF q, of "String value"] full
      by (simp add: pairParts.simps Let_def target_def)
  next
    case (JStr s)
    then show ?thesis
      using scalar_pair [OF q, of "String value"] full
      by (simp add: pairParts.simps Let_def target_def)
  qed (use cv in simp_all)
next
  case (3 fullKey arrayIndex arrayItem)
  let ?q = "path'' @ [showNat arrayIndex]"
  have item: "arrayItem = Some v" using "3.prems"(3) by simp
  have q: "goodPath ?q" using "3.prems"(1) by (rule goodPath_snoc) (rule showNat_notBracket)
  have full: "fullKey @ ''['' @ showNat arrayIndex @ '']'' = pathString ?q"
    using pathString_index [OF "3.prems"(1)] "3.prems"(2) by simp
  show ?case
  proof (cases v)
    case (JObj kvs)
    have "mapE pairTarget (pairsOf (objectToQueryString (JObj kvs) (fullKey @ ''['' @ showNat arrayIndex @ '']'')))
          = Inr (map (target ?q) (leafPaths (JObj kvs)))"
      using "3.IH"(1) [OF item JObj q full] "3.prems"(4) JObj by simp
    with item JObj show ?thesis by (simp add: itemParts.simps)
  next
    case (JArr els named)
    have "mapE pairTarget (pairsOf (objectToQueryString (JArr els named) (fullKey @ ''['' @ showNat arrayIndex @ '']'')))
          = Inr (map (target ?q) (leafPaths (JArr els named)))"
      using "3.IH"(2) [OF item JArr q full] "3.prems"(4) JArr by simp
    with item JArr show ?thesis by (simp add: itemParts.simps)
  next
    case (JBool b)
    with item show ?thesis
      using scalar_item [OF "3.prems"(1), of arrayIndex "String v"] "3.prems"(2)
      by (simp add: itemParts.simps target_def)
  next
    case (JNum n)
    with item show ?thesis
      using scalar_item [OF "3.prems"(1), of arrayIndex "String v"] "3.prems"(2)
      by (simp add: itemParts.simps target_def)
  next
    case (JStr s)
    with item show ?thesis
      using scalar_item [OF "3.prems"(1), of arrayIndex "String v"] "3.prems"(2)
      by (simp add: itemParts.simps target_def)
  qed (use "3.prems"(4) in simp_all)
qed

subsection \<open>Decoding the leaves rebuilds the value\<close>

definition assignLeaf :: "jsval \<Rightarrow> string list \<times> string \<Rightarrow> exn + jsval" where
  "assignLeaf cur leaf = assignPath cur (fst leaf) (JStr (snd leaf))"

text \<open>
  A slot is free in a container when assigning under the key appends a new child: a plain
  key that the object does not have yet and lists after all its keys, or the next index of
  an array.
\<close>

fun slotFree :: "jsval \<Rightarrow> string \<Rightarrow> bool" where
  "slotFree (JObj pre) k =
     (k \<notin> fst ` set pre \<and> plainKey k \<and> (\<forall>e\<in>set pre. keyBefore (fst e) k))"
| "slotFree (JArr pre named) k =
     (named = [] \<and> k = showNat (length pre) \<and> length pre < 2 ^ 32 - 1)"
| "slotFree v k = False"

fun appendChild :: "jsval \<Rightarrow> string \<Rightarrow> jsval \<Rightarrow> jsval" where
  "appendChild (JObj pre) k c = JObj (pre @ [(k, c)])"
| "appendChild (JArr pre named) k c = JArr (pre @ [Some c]) named"
| "appendChild v k c = v"

definition freshFor :: "string \<Rightarrow> jsval" where
  "freshFor nextSegment = (if numericString (cleanKey nextSegment) then JArr [] [] else JObj [])"

lemma assignPath_cong:
  "map cleanKey segs = map cleanKey segs' \<Longrightarrow> assignPath cur segs v = assignPath cur segs' v"
proof (induction cur segs v arbitrary: segs' rule: assignPath.induct)
  case (1 currentLevel v)
  then show ?case by simp
next
  case (2 currentLevel keySegment v)
  then obtain s where "segs' = [s]" "cleanKey s = cleanKey keySegment" by (cases segs') auto
  then show ?case by simp
next
  case (3 currentLevel keySegment nextSegment rest v)
  from "3.prems" obtain s1 s2 r where segs': "segs' = s1 # s2 # r"
    and c1: "cleanKey s1 = cleanKey keySegment" and c2: "cleanKey s2 = cleanKey nextSegment"
    and tail: "map cleanKey (nextSegment # rest) = map cleanKey (s2 # r)"
    by (cases segs'; cases "tl segs'") auto
  have rec: "assignPath x (nextSegment # rest) v = assignPath x (s2 # r) v" if "truthy x" for x
    using "3.IH"(2) [of x "s2 # r"] that tail by simp
  show ?case
  proof (cases "getProp currentLevel (cleanKey keySegment)")
    case (Inl e)
    then show ?thesis by (simp add: segs' c1 ebind_def)
  next
    case (Inr existing)
    show ?thesis
    proof (cases "truthy existing")
      case True
      with Inr rec [OF True] show ?thesis by (simp add: segs' c1 ebind_def)
    next
      case False
      from Inr False rec [of "JArr [] []"] rec [of "JObj []"] show ?thesis
        by (simp add: segs' c1 c2 ebind_def Let_def cong: sum.case_cong)
    qed
  qed
qed

lemma assignPath_segments:
  assumes "\<forall>k\<in>set p. list_all notBracket k"
  shows "assignPath cur (segments p) v = assignPath cur p v"
proof (rule assignPath_cong)
  have "map cleanKey (map bracket ks) = ks" "map cleanKey ks = ks"
    if "\<forall>k\<in>set ks. list_all notBracket k" for ks
    using that by (induction ks) (simp_all add: cleanKey_bracket cleanKey_plain)
  with assms show "map cleanKey (segments p) = map cleanKey p"
    by (cases p) (simp_all add: cleanKey_plain)
qed

lemma inherited_heads:
  "n \<in> set (arrayPrototypeKeys @ stringPrototypeKeys @ numberPrototypeKeys @ objectPrototypeKeys)
   \<Longrightarrow> n \<noteq> [] \<and> \<not> isDigit (hd n)"
  by (auto simp: arrayPrototypeKeys_def stringPrototypeKeys_def numberPrototypeKeys_def
      objectPrototypeKeys_def isDigit_def)

lemma index_not_inherited:
  assumes "indexOfKey k = Some i"
  shows "k \<notin> set (inheritedKeys level)"
proof
  assume "k \<in> set (inheritedKeys level)"
  then have "k \<in> set (arrayPrototypeKeys @ stringPrototypeKeys @ numberPrototypeKeys @ objectPrototypeKeys)"
    by (cases level) auto
  from inherited_heads [OF this] have "\<not> isDigit (hd k)" by simp
  moreover from assms have "k \<noteq> []" "list_all isDigit k"
    by (auto simp: indexOfKey_def split: if_splits)
  ultimately show False by (cases k) auto
qed

lemma replaceEntry_absent: "k \<notin> fst ` set xs \<Longrightarrow> replaceEntry k c xs = xs"
  by (induction xs) (auto simp: replaceEntry_def)

lemma replaceEntry_append:
  "replaceEntry k c (xs @ ys) = replaceEntry k c xs @ replaceEntry k c ys"
  by (simp add: replaceEntry_def)


lemma slot_clean: "slotFree cur k \<Longrightarrow> cleanKey k = k"
  by (cases cur) (simp_all add: plainKey_def cleanKey_plain showNat_notBracket)

lemma slot_get:
  assumes "slotFree cur k" "k \<notin> set objectPrototypeKeys"
  shows "getProp cur k = Inr JUndefined"
proof (cases cur)
  case (JObj pre)
  with assms have "map_of pre k = None" by (simp add: map_of_eq_None_iff)
  with JObj assms(2) show ?thesis by simp
next
  case (JArr pre named)
  with assms have k: "indexOfKey k = Some (length pre)" by (simp add: indexOfKey_showNat)
  from index_not_inherited [OF this, of cur] JArr k show ?thesis by simp
qed (use assms in simp_all)

lemma slot_set: "slotFree cur k \<Longrightarrow> setProp cur k c = Inr (appendChild cur k c)"
proof (cases cur)
  case (JObj pre)
  assume "slotFree cur k"
  with JObj show ?thesis by (simp add: plainKey_def updateEntry_fresh)
next
  case (JArr pre named)
  assume "slotFree cur k"
  with JArr show ?thesis by (simp add: indexOfKey_showNat setIndex_def)
qed simp_all

lemma slot_child: "slotFree cur k \<Longrightarrow> getProp (appendChild cur k c) k = Inr c"
proof (cases cur)
  case (JObj pre)
  assume "slotFree cur k"
  with JObj have "map_of pre k = None" by (simp add: map_of_eq_None_iff)
  then have "map_of (pre @ [(k, c)]) k = Some c" by (simp add: map_add_def)
  with JObj show ?thesis by simp
next
  case (JArr pre named)
  assume "slotFree cur k"
  with JArr show ?thesis by (simp add: indexOfKey_showNat)
qed simp_all

lemma slot_store:
  "slotFree cur k \<Longrightarrow> storeChild (appendChild cur k c) k c' = appendChild cur k c'"
proof (cases cur)
  case (JObj pre)
  assume "slotFree cur k"
  with JObj have "k \<notin> fst ` set pre" by simp
  from replaceEntry_absent [OF this] JObj show ?thesis
    by (simp add: replaceEntry_append) (simp add: replaceEntry_def)
next
  case (JArr pre named)
  assume "slotFree cur k"
  with JArr show ?thesis by (simp add: indexOfKey_showNat)
qed simp_all

lemma assign_scalar: "slotFree cur k \<Longrightarrow> assignPath cur [k] v = Inr (appendChild cur k v)"
  by (simp add: slot_clean slot_set)

lemma assign_first:
  assumes "slotFree cur k" "k \<notin> set objectPrototypeKeys"
  shows "assignPath cur (k # n # rest) v =
         ebind (assignPath (freshFor n) (n # rest) v) (\<lambda>c. Inr (appendChild cur k c))"
  using assms
  by (cases "assignPath (freshFor n) (n # rest) v")
     (simp_all add: slot_clean slot_get slot_set slot_store ebind_def Let_def freshFor_def)

lemma container_truthy: "isContainer c \<Longrightarrow> truthy c"
  by (cases c) simp_all

lemma assign_later:
  assumes "slotFree cur k" "isContainer c"
  shows "assignPath (appendChild cur k c) (k # n # rest) v =
         ebind (assignPath c (n # rest) v) (\<lambda>c'. Inr (appendChild cur k c'))"
  using assms container_truthy [OF assms(2)]
  by (cases "assignPath c (n # rest) v")
     (simp_all add: slot_clean slot_child slot_store ebind_def)

text \<open>A walk leaves a container a container of the same kind.\<close>

lemma protoSetter_level: "protoSetter level v = Inr c \<Longrightarrow> c = level"
  by (cases v) simp_all

lemma setProp_kind:
  "setProp c k v = Inr c' \<Longrightarrow> isContainer c \<Longrightarrow> isContainer c' \<and> isArray c' = isArray c"
  by (cases c) (auto split: option.splits if_splits dest: protoSetter_level)

lemma storeChild_kind: "isContainer (storeChild c k x) = isContainer c \<and> isArray (storeChild c k x) = isArray c"
  by (cases c) (simp_all split: option.splits)

lemma assignPath_kind:
  assumes "assignPath c p v = Inr c'" "isContainer c"
  shows "isContainer c' \<and> isArray c' = isArray c"
proof (cases p)
  case Nil
  with assms show ?thesis by simp
next
  case (Cons k rest)
  show ?thesis
  proof (cases rest)
    case Nil
    with Cons assms show ?thesis by (auto dest: setProp_kind)
  next
    case (Cons n rest')
    with \<open>p = k # rest\<close> assms show ?thesis
      by (auto simp: ebind_def Let_def storeChild_kind split: sum.splits if_splits
          dest: setProp_kind)
  qed
qed

lemma freshFor_container: "isContainer (freshFor n)"
  by (simp add: freshFor_def)

lemma foldE_append: "foldE f s (xs @ ys) = ebind (foldE f s xs) (\<lambda>s'. foldE f s' ys)"
  by (induction xs arbitrary: s) (auto simp: ebind_def split: sum.splits)

lemma fold_later:
  assumes "slotFree cur k"
  shows "isContainer c \<Longrightarrow> \<forall>leaf\<in>set L. fst leaf \<noteq> [] \<Longrightarrow>
         foldE assignLeaf (appendChild cur k c) (map (\<lambda>(p, s). (k # p, s)) L) =
         ebind (foldE assignLeaf c L) (\<lambda>c'. Inr (appendChild cur k c'))"
proof (induction L arbitrary: c)
  case Nil
  then show ?case by (simp add: ebind_def)
next
  case (Cons leaf L)
  obtain p s where leaf: "leaf = (p, s)" by (cases leaf)
  with Cons.prems obtain n rest where p: "p = n # rest" by (cases p) auto
  have first: "assignLeaf (appendChild cur k c) (k # p, s) =
               ebind (assignLeaf c (p, s)) (\<lambda>c'. Inr (appendChild cur k c'))"
    using assign_later [OF assms Cons.prems(1)] by (simp add: assignLeaf_def p)
  show ?case
  proof (cases "assignLeaf c (p, s)")
    case (Inl e)
    with first leaf show ?thesis by (simp add: ebind_def)
  next
    case (Inr c1)
    then have "isContainer c1"
      using assignPath_kind [of c p "JStr s" c1] Cons.prems(1) by (simp add: assignLeaf_def)
    from Cons.IH [OF this] Cons.prems(2) Inr first leaf show ?thesis by (simp add: ebind_def)
  qed
qed

lemma fold_first:
  assumes "slotFree cur k" "k \<notin> set objectPrototypeKeys"
    and "L = (n # rest, s) # L'" "\<forall>leaf\<in>set L. fst leaf \<noteq> []"
  shows "foldE assignLeaf cur (map (\<lambda>(p, s). (k # p, s)) L) =
         ebind (foldE assignLeaf (freshFor n) L) (\<lambda>c'. Inr (appendChild cur k c'))"
proof -
  have first: "assignLeaf cur (k # n # rest, s) =
               ebind (assignLeaf (freshFor n) (n # rest, s)) (\<lambda>c. Inr (appendChild cur k c))"
    using assign_first [OF assms(1,2)] by (simp add: assignLeaf_def)
  show ?thesis
  proof (cases "assignLeaf (freshFor n) (n # rest, s)")
    case (Inl e)
    with first assms(3) show ?thesis by (simp add: ebind_def)
  next
    case (Inr c1)
    then have t: "isContainer c1"
      using assignPath_kind [of "freshFor n" "n # rest" "JStr s" c1] freshFor_container
      by (simp add: assignLeaf_def)
    have "\<forall>leaf\<in>set L'. fst leaf \<noteq> []" using assms(3,4) by simp
    from fold_later [OF assms(1) t this] Inr first assms(3) show ?thesis by (simp add: ebind_def)
  qed
qed

lemma leaves_nonempty:
  "codecValue v \<Longrightarrow> leafPaths v \<noteq> []"
  "\<forall>x\<in>set kvs. codecValue (snd x) \<Longrightarrow> kvs \<noteq> [] \<Longrightarrow> propLeaves kvs \<noteq> []"
  "codecItems els \<Longrightarrow> els \<noteq> [] \<Longrightarrow> itemLeaves i els \<noteq> []"
proof (induction v and kvs and i els rule: leafPaths_propLeaves_itemLeaves.induct)
  case (1 kvs)
  then have "kvs \<noteq> []" "codecProps kvs" by simp_all
  moreover from this have "\<forall>x\<in>set kvs. codecValue (snd x)"
    using codecProps_mem [of kvs] by auto
  ultimately show ?case using "1.IH" by simp
qed auto

lemma propLeaves_paths: "\<forall>leaf\<in>set (propLeaves kvs). fst leaf \<noteq> []"
  by (induction kvs) auto

lemma itemLeaves_paths: "\<forall>leaf\<in>set (itemLeaves i els). fst leaf \<noteq> []"
  by (induction i els rule: indexEntries.induct) auto

lemma propertyList_keys: "map fst xs = map fst ys \<Longrightarrow> propertyList xs = propertyList ys"
  by (simp add: propertyList_def)

lemma showNat_not_member: "showNat i \<notin> set objectPrototypeKeys"
proof
  assume "showNat i \<in> set objectPrototypeKeys"
  then have "\<not> isDigit (hd (showNat i))" using inherited_heads [of "showNat i"] by simp
  then show False using showNat_digits [of i] showNat_nonempty [of i] by (cases "showNat i") auto
qed

lemma build:
  "codecValue v \<Longrightarrow> wellFormed v \<Longrightarrow> slotFree cur k \<Longrightarrow>
   (isContainer v \<longrightarrow> k \<notin> set objectPrototypeKeys) \<Longrightarrow>
     foldE assignLeaf cur (map (\<lambda>(p, s). (k # p, s)) (leafPaths v))
       = Inr (appendChild cur k (normalize v))"
  "codecProps kvs \<Longrightarrow> wellFormedProps kvs \<Longrightarrow> propertyList (pre @ kvs) \<Longrightarrow>
     foldE assignLeaf (JObj pre) (propLeaves kvs)
       = Inr (JObj (pre @ map (\<lambda>p. (fst p, normalize (snd p))) kvs))"
  "codecItems els \<Longrightarrow> wellFormedItems els \<Longrightarrow> i = length items \<Longrightarrow>
   length items + length els < 2 ^ 32 \<Longrightarrow>
     foldE assignLeaf (JArr items []) (itemLeaves i els)
       = Inr (JArr (items @ map (map_option normalize) els) [])"
proof (induction v and kvs and i els arbitrary: cur k and pre and items
    rule: leafPaths_propLeaves_itemLeaves.induct)
  case (1 kvs)
  from "1.prems"(1) have ne: "kvs \<noteq> []" and first_key: "\<not> numericString (fst (hd kvs))"
    and props: "codecProps kvs" by simp_all
  from "1.prems"(2) have wf: "propertyList kvs" "wellFormedProps kvs" by simp_all
  have k: "k \<notin> set objectPrototypeKeys" using "1.prems"(4) by simp
  obtain k1 v1 rest where kvs: "kvs = (k1, v1) # rest" using ne by (cases kvs) auto
  with props first_key have k1: "plainKey k1" "\<not> numericString k1" "codecValue v1" by simp_all
  from leaves_nonempty(1) [OF k1(3)] obtain p1 s1 l1 where "leafPaths v1 = (p1, s1) # l1"
    by (cases "leafPaths v1") auto
  with kvs obtain L' where first: "propLeaves kvs = (k1 # p1, s1) # L'" by simp
  have fresh: "freshFor k1 = JObj []"
    using k1 by (simp add: freshFor_def plainKey_def cleanKey_plain)
  have inner: "foldE assignLeaf (JObj []) (propLeaves kvs) = Inr (normalize (JObj kvs))"
    using "1.IH" [OF props wf(2), of "[]"] wf(1) by simp
  from fold_first [OF "1.prems"(3) k first propLeaves_paths] inner fresh
  show ?case by (simp add: ebind_def)
next
  case (2 els named)
  from "2.prems"(1) have ne: "els \<noteq> []" and named: "named = []" and items: "codecItems els"
    by simp_all
  from "2.prems"(2) have len: "length els < 2 ^ 32" and wf: "wellFormedItems els" by simp_all
  have k: "k \<notin> set objectPrototypeKeys" using "2.prems"(4) by simp
  obtain v1 rest where els: "els = Some v1 # rest" "codecValue v1"
    using ne items by (cases els; cases "hd els") auto
  from leaves_nonempty(1) [OF els(2)] obtain p1 s1 l1 where "leafPaths v1 = (p1, s1) # l1"
    by (cases "leafPaths v1") auto
  with els obtain L' where first: "itemLeaves 0 els = (showNat 0 # p1, s1) # L'" by simp
  have fresh: "freshFor (showNat 0) = JArr [] []"
    by (simp add: freshFor_def cleanKey_plain showNat_notBracket numericString_showNat)
  have inner: "foldE assignLeaf (JArr [] []) (itemLeaves 0 els) = Inr (normalize (JArr els named))"
    using "2.IH" [OF items wf, of "[]"] len named by simp
  from fold_first [OF "2.prems"(3) k first itemLeaves_paths] inner fresh
  show ?case by (simp add: ebind_def)
next
  case 3
  then show ?case by simp
next
  case 4
  then show ?case by simp
next
  case (5 b)
  then show ?case using assign_scalar [of cur k] by (simp add: assignLeaf_def ebind_def)
next
  case (6 n)
  then show ?case using assign_scalar [of cur k] by (simp add: assignLeaf_def ebind_def)
next
  case (7 s)
  then show ?case using assign_scalar [of cur k] by (simp add: assignLeaf_def ebind_def)
next
  case 8
  then show ?case by simp
next
  case (9 k v rest)
  from "9.prems"(1) have key: "plainKey k" "isContainer v \<longrightarrow> k \<notin> set objectPrototypeKeys"
    and v: "codecValue v" and rest: "codecProps rest" by simp_all
  from "9.prems"(2) have wf: "wellFormed v" "wellFormedProps rest" by simp_all
  have slot: "slotFree (JObj pre) k"
    using "9.prems"(3) key(1) by (auto simp: propertyList_def sorted_wrt_append)
  have one: "foldE assignLeaf (JObj pre) (map (\<lambda>(p, s). (k # p, s)) (leafPaths v))
             = Inr (JObj (pre @ [(k, normalize v)]))"
    using "9.IH"(1) [OF v wf(1) slot key(2)] by simp
  have "propertyList ((pre @ [(k, normalize v)]) @ rest)"
    using "9.prems"(3) propertyList_keys [of "(pre @ [(k, normalize v)]) @ rest" "pre @ (k, v) # rest"]
    by simp
  from "9.IH"(2) [OF rest wf(2) this]
  have two: "foldE assignLeaf (JObj (pre @ [(k, normalize v)])) (propLeaves rest)
             = Inr (JObj ((pre @ [(k, normalize v)]) @ map (\<lambda>p. (fst p, normalize (snd p))) rest))" .
  show ?case by (simp add: foldE_append one two ebind_def)
next
  case (10 i)
  then show ?case by simp
next
  case (11 i rest)
  then show ?case by simp
next
  case (12 i v rest)
  have slot: "slotFree (JArr items []) (showNat i)" using "12.prems" by simp
  have v: "codecValue v" "wellFormed v" using "12.prems"(1,2) by simp_all
  have one: "foldE assignLeaf (JArr items []) (map (\<lambda>(p, s). (showNat i # p, s)) (leafPaths v))
             = Inr (JArr (items @ [Some (normalize v)]) [])"
    using "12.IH"(1) [OF v slot] showNat_not_member by simp
  have two: "foldE assignLeaf (JArr (items @ [Some (normalize v)]) []) (itemLeaves (Suc i) rest)
             = Inr (JArr ((items @ [Some (normalize v)]) @ map (map_option normalize) rest) [])"
  proof (rule "12.IH"(2))
    show "codecItems rest" using "12.prems"(1) by simp
    show "wellFormedItems rest" using "12.prems"(2) by simp
    show "Suc i = length (items @ [Some (normalize v)])" using "12.prems"(3) by simp
    show "length (items @ [Some (normalize v)]) + length rest < 2 ^ 32"
      using "12.prems"(4) by simp
  qed
  show ?case by (simp add: foldE_append one two ebind_def)
qed


lemma leaves_notBracket:
  "codecValue v \<Longrightarrow> \<forall>leaf\<in>set (leafPaths v). \<forall>k\<in>set (fst leaf). list_all notBracket k"
  "\<forall>x\<in>set kvs. plainKey (fst x) \<and> codecValue (snd x) \<Longrightarrow>
     \<forall>leaf\<in>set (propLeaves kvs). \<forall>k\<in>set (fst leaf). list_all notBracket k"
  "codecItems els \<Longrightarrow> \<forall>leaf\<in>set (itemLeaves i els). \<forall>k\<in>set (fst leaf). list_all notBracket k"
proof (induction v and kvs and i els rule: leafPaths_propLeaves_itemLeaves.induct)
  case (1 kvs)
  then have "codecProps kvs" by simp
  then have "\<forall>x\<in>set kvs. plainKey (fst x) \<and> codecValue (snd x)"
    using codecProps_mem [of kvs] by auto
  with "1.IH" show ?case by simp
next
  case (9 k v rest)
  then show ?case by (auto simp: plainKey_def)
next
  case (12 i v rest)
  then show ?case using showNat_notBracket [of i] by auto
qed auto

lemma joinWith_chars: "c \<in> set (joinWith sep parts) \<Longrightarrow> c \<in> set sep \<or> (\<exists>p\<in>set parts. c \<in> set p)"
  by (induction sep parts rule: joinWith.induct) auto

lemma digit_not_question: "isDigit c \<Longrightarrow> c \<noteq> CHR ''?''"
  by (auto simp: isDigit_def)

lemma showNat_no_question: "CHR ''?'' \<notin> set (showNat i)"
  using showNat_digits [of i] by (auto simp: list_all_iff dest: digit_not_question)

lemma encoded_no_question:
  "CHR ''?'' \<notin> set (objectToQueryString object prefix)"
  "\<forall>part\<in>set (pairParts prefix' kv). CHR ''?'' \<notin> set part"
  "\<forall>part\<in>set (itemParts fullKey it). CHR ''?'' \<notin> set part"
proof (induction object prefix and prefix' kv and fullKey it
    rule: objectToQueryString_pairParts_itemParts.induct)
  case (1 object prefix)
  show ?case
  proof
    assume "CHR ''?'' \<in> set (objectToQueryString object prefix)"
    then have "CHR ''?'' \<in> set (joinWith ''&'' (concat (map (pairParts prefix) (entries object))))"
      by (simp add: objectToQueryString.simps)
    from joinWith_chars [OF this] obtain part
      where "part \<in> set (concat (map (pairParts prefix) (entries object)))" "CHR ''?'' \<in> set part"
      by auto
    with "1.IH" show False by auto
  qed
next
  case (2 prefix key "value")
  show ?case
  proof (cases "value")
    case (JObj kvs)
    with "2.IH"(1) [OF refl JObj] show ?thesis by (simp add: pairParts.simps Let_def)
  next
    case (JArr els named)
    with "2.IH"(2) [OF refl JArr] show ?thesis by (auto simp: pairParts.simps Let_def)
  qed (simp_all add: pairParts.simps Let_def encode_free)
next
  case (3 fullKey arrayIndex arrayItem)
  show ?case
  proof (cases arrayItem)
    case None
    then show ?thesis by (simp add: itemParts.simps)
  next
    case (Some v)
    show ?thesis
    proof (cases v)
      case (JObj kvs)
      with Some "3.IH"(1) [OF Some JObj] show ?thesis by (simp add: itemParts.simps)
    next
      case (JArr els named)
      with Some "3.IH"(2) [OF Some JArr] show ?thesis by (simp add: itemParts.simps)
    qed (use Some in \<open>simp_all add: itemParts.simps encode_free showNat_no_question\<close>)
  qed
qed

definition assignTarget :: "jsval \<Rightarrow> (string list \<times> jsval) option \<Rightarrow> exn + jsval" where
  "assignTarget lvl t = (case t of None \<Rightarrow> Inr lvl | Some (segs, v) \<Rightarrow> assignPath lvl segs v)"

lemma fold_targets:
  "mapE pairTarget pairs = Inr ts \<Longrightarrow>
   foldE processPair obj pairs = foldE assignTarget obj ts"
proof (induction pairs arbitrary: obj ts)
  case Nil
  then show ?case by simp
next
  case (Cons pair pairs)
  from Cons.prems obtain t ts' where t: "pairTarget pair = Inr t" "mapE pairTarget pairs = Inr ts'"
    "ts = t # ts'"
    by (auto simp: ebind_def split: sum.splits)
  have head: "processPair obj pair = assignTarget obj t"
    using t(1) by (simp add: processPair_target ebind_def assignTarget_def)
  show ?case
  proof (cases "assignTarget obj t")
    case (Inl e)
    with head t(3) show ?thesis by (simp add: ebind_def)
  next
    case (Inr obj')
    with head t(3) Cons.IH [OF t(2), of obj'] show ?thesis by (simp add: ebind_def)
  qed
qed

lemma foldE_map_cong:
  "(\<And>x s. x \<in> set xs \<Longrightarrow> f s (g x) = h s x) \<Longrightarrow> foldE f s (map g xs) = foldE h s xs"
  by (induction xs arbitrary: s) (simp_all add: ebind_def split: sum.splits)

subsection \<open>One step of the walk\<close>











text \<open>A mapping with nested sequences and mappings, for the round trip.\<close>

definition sampleMapping :: "(string \<times> jsval) list" where
  "sampleMapping =
     [(''7'', JBool True),
      (''search'', JStr ''a b&c''),
      (''page'', JNum 2),
      (''constructor'', JStr ''x''),
      (''filters'', JArr [Some (JObj [(''key'', JStr ''k''), (''value'', JStr [CHR 0xE9])]),
                          Some (JArr [Some (JNum (-1))] [])] []),
      (''user'', JObj [(''name'', JObj [(''first'', JStr []), (''1.5'', JStr ''y'')])])]"

section \<open>Claims about the codec\<close>

text \<open>
  C8, as the code has it. A pair is split at every \<open>=\<close> and every field is
  percent-decoded; the key is the first field and the value the second (\<open>undefined\<close> when
  the pair has no \<open>=\<close>), so whatever follows a second \<open>=\<close> is discarded. A pair whose key
  is empty, or has no segment, leaves the tree unchanged.
\<close>

theorem pair_fields_are_split_at_every_equals_sign:
  assumes "\<forall>f\<in>set (k # rest). CHR ''='' \<notin> set f"
    and "mapE decodeURIComponent (k # rest) = Inr (k' # rest')"
  shows "processPair obj (joinWith ''='' (k # rest)) =
          (if k' = [] then Inr obj
           else case matchSegments k' of
                  [] \<Rightarrow> Inr obj
                | segs \<Rightarrow> assignPath obj segs (case rest' of [] \<Rightarrow> JUndefined | v' # _ \<Rightarrow> JStr v'))"
proof -
  have "splitOn CHR ''='' (joinWith ''='' (k # rest)) = k # rest"
    using split_join [of "k # rest" "CHR ''=''"] assms(1) by simp
  with assms(2) show ?thesis
    by (cases rest') (simp_all add: processPair_def ebind_def Let_def split: list.splits)
qed

theorem pair_fields_are_split_at_every_equals_sign_witness:
  "processPair (JObj []) ''k=v1=v2'' = Inr (JObj [(''k'', JStr ''v1'')])"
  using pair_fields_are_split_at_every_equals_sign
    [of "''k''" "[''v1'', ''v2'']" "''k''" "[''v1'', ''v2'']" "JObj []"]
  by (simp add: codec_eval)

text \<open>
  C8 as stated fails: for the pair \<open>k=v1=v2\<close> the decoded value at \<open>k\<close> is \<open>v1\<close>, not
  \<open>v1=v2\<close>.
\<close>

theorem value_after_second_equals_sign_is_lost:
  "queryStringToObject ''k=v1=v2'' = Inr (JObj [(''k'', JStr ''v1'')])
   \<and> queryStringToObject ''k=v1=v2'' \<noteq> Inr (JObj [(''k'', JStr ''v1=v2'')])"
  by (simp add: codec_eval)

text \<open>
  C9, as the code has it. The tokenizer is total and never keeps a bracket as a key
  character: the cleaned segments, put together, are the key with every bracket removed. An
  unmatched bracket between two bare tokens separates them into two segments.
\<close>

theorem stray_brackets_are_skipped:
  "concat (map cleanKey (matchSegments key)) = filter notBracket key
   \<and> (a \<noteq> [] \<and> b \<noteq> [] \<and> list_all notBracket a \<and> list_all notBracket b \<longrightarrow>
        matchSegments (a @ '']'' @ b) = [a, b] \<and> matchSegments (a @ ''['' @ b) = [a, b])"
proof (intro conjI impI)
  show "concat (map cleanKey (matchSegments key)) = filter notBracket key"
    by (rule clean_segments)
next
  assume ab: "a \<noteq> [] \<and> b \<noteq> [] \<and> list_all notBracket a \<and> list_all notBracket b"
  then have b: "matchSegments b = [b]"
    using match_run [of b "[]"] by simp
  have "matchSegments (a @ CHR '']'' # b) = a # matchSegments (CHR '']'' # b)"
    using ab by (intro match_run) (simp_all add: notBracket_def)
  also have "matchSegments (CHR '']'' # b) = [b]"
    using b by (simp add: notBracket_def)
  finally show "matchSegments (a @ '']'' @ b) = [a, b]" by simp
  have nb: "dropWhile notBracket b = []" using ab by (simp add: list_all_iff)
  have "matchSegments (a @ CHR ''['' # b) = a # matchSegments (CHR ''['' # b)"
    using ab by (intro match_run) (simp_all add: notBracket_def)
  also have "matchSegments (CHR ''['' # b) = [b]"
    using b nb by (simp add: notBracket_def del: dropWhile_eq_Nil_conv)
  finally show "matchSegments (a @ ''['' @ b) = [a, b]" by simp
qed

theorem stray_brackets_are_skipped_witness:
  "matchSegments ''a]b'' = [''a'', ''b''] \<and> matchSegments ''a[b'' = [''a'', ''b'']
   \<and> concat (map cleanKey (matchSegments ''[a]]b[['')) = ''ab''"
  using stray_brackets_are_skipped [of "''[a]]b[[''" "''a''" "''b''"]
  by (simp add: notBracket_def)

text \<open>
  C9 as stated fails: the key \<open>a]b\<close> is read as the path \<open>a\<close>, \<open>b\<close>, not as the literal key
  \<open>a]b\<close>; and decoding a query with such a key can throw, as \<open>a=x&a]b=1\<close> does when it
  assigns a property on the string \<open>x\<close>.
\<close>

theorem stray_bracket_is_not_a_key_character:
  "queryStringToObject ''a]b=1'' = Inr (JObj [(''a'', JObj [(''b'', JStr ''1'')])])
   \<and> queryStringToObject ''a]b=1'' \<noteq> Inr (JObj [(''a]b'', JStr ''1'')])
   \<and> queryStringToObject ''a=x&a]b=1'' = Inl TypeError"
  by (simp add: codec_eval)




text \<open>
  C1, for the mappings the codec carries. Strings are over the code units U+0000 to
  U+00FF and numbers are the integers from \<open>-2^53\<close> to \<open>2^53 - 1\<close>. The mapping is a
  well-formed value, so its property lists are in the order of \<open>Object.entries\<close>. Its keys
  are plain, and those of the top level are not empty; its values are strings, numbers,
  booleans, non-empty sequences without holes, and non-empty mappings whose first key is
  not numeric; a key that holds a mapping or sequence names no member of
  \<open>Object.prototype\<close>. Then decoding the encoding gives the mapping with every scalar
  replaced by its string form.
\<close>

theorem decode_inverts_encode:
  assumes "wellFormed (JObj kvs)" and "codecMapping kvs"
  shows "queryStringToObject (objectToQueryString (JObj kvs) []) = Inr (normalize (JObj kvs))"
proof -
  let ?enc = "objectToQueryString (JObj kvs) []"
  from assms(2) have props: "codecProps kvs" and keys: "\<forall>x\<in>set kvs. fst x \<noteq> []"
    by (auto simp: codecMapping_def list_all_iff)
  have members: "\<forall>x\<in>set kvs. plainKey (fst x) \<and> codecValue (snd x)"
    using codecProps_mem [OF props] by auto
  have each: "mapE pairTarget (concat (map pairsOf (pairParts [] x)))
              = Inr (map (target ([] @ [fst x])) (leafPaths (snd x)))"
    if "x \<in> set kvs" for x
  proof (rule encode_targets(2))
    show "goodPath ([] @ [fst x])" using members keys that by (simp add: goodPath_def plainKey_def)
    show "[] = pathString []" by simp
    show "codecValue (snd x)" using members that by simp
  qed
  have "pairsOf ?enc = concat (map (\<lambda>x. concat (map pairsOf (pairParts [] x))) kvs)"
    by (simp add: objectToQueryString.simps pairsOf_join concat_map_concat)
  then have "mapE pairTarget (pairsOf ?enc)
             = Inr (concat (map (\<lambda>x. map (target ([] @ [fst x])) (leafPaths (snd x))) kvs))"
    using mapE_concat [of kvs pairTarget "\<lambda>x. concat (map pairsOf (pairParts [] x))"
        "\<lambda>x. map (target ([] @ [fst x])) (leafPaths (snd x))"] each by simp
  also have "concat (map (\<lambda>x. map (target ([] @ [fst x])) (leafPaths (snd x))) kvs)
             = map (target []) (propLeaves kvs)"
    by (simp only: propLeaves_entries target_concat)
  finally have targets: "mapE pairTarget (pairsOf ?enc) = Inr (map (target []) (propLeaves kvs))" .
  have built: "foldE assignLeaf (JObj []) (propLeaves kvs) = Inr (normalize (JObj kvs))"
    using build(2) [OF props, of "[]"] assms(1) by simp
  show ?thesis
  proof (cases "kvs = []")
    case True
    then show ?thesis by (simp add: objectToQueryString.simps queryStringToObject_def)
  next
    case False
    then have "propLeaves kvs \<noteq> []" using leaves_nonempty(2) [of kvs] members by simp
    with targets have "pairsOf ?enc \<noteq> []" by (cases "pairsOf ?enc") auto
    then have ne: "?enc \<noteq> []" by (auto simp: pairsOf_def)
    have noq: "CHR ''?'' \<notin> set ?enc" by (rule encoded_no_question(1))
    then have "?enc \<noteq> ''?''" by auto
    moreover from ne noq have "hd ?enc \<noteq> CHR ''?''" by (cases ?enc) auto
    ultimately have "queryStringToObject ?enc = foldE processPair (JObj []) (pairsOf ?enc)"
      using ne by (simp add: queryStringToObject_def pairsOf_def)
    also have "\<dots> = foldE assignTarget (JObj []) (map (target []) (propLeaves kvs))"
      by (rule fold_targets [OF targets])
    also have "\<dots> = foldE assignLeaf (JObj []) (propLeaves kvs)"
    proof (rule foldE_map_cong)
      fix leaf s
      assume "leaf \<in> set (propLeaves kvs)"
      then have "\<forall>k\<in>set (fst leaf). list_all notBracket k"
        using leaves_notBracket(2) [of kvs] members by simp
      then show "assignTarget s (target [] leaf) = assignLeaf s leaf"
        by (simp add: target_def assignLeaf_def assignTarget_def assignPath_segments)
    qed
    finally show ?thesis using built by simp
  qed
qed

text \<open>
  The example lists the key \<open>7\<close> first, as \<open>Object.entries\<close> does; \<open>constructor\<close> holds a
  string, and the nested mapping \<open>name\<close> has the numeric key \<open>1.5\<close> after its first key.
\<close>

theorem decode_inverts_encode_witness:
  "objectToQueryString (JObj sampleMapping) [] =
     ''7=true&search=a%20b%26c&page=2&constructor=x&filters%5B0%5D%5Bkey%5D=k&filters%5B0%5D%5Bvalue%5D=%C3%A9&filters%5B1%5D%5B0%5D=-1&user%5Bname%5D%5Bfirst%5D=&user%5Bname%5D%5B1.5%5D=y''
   \<and> queryStringToObject (objectToQueryString (JObj sampleMapping) []) =
     Inr (JObj
       [(''7'', JStr ''true''),
        (''search'', JStr ''a b&c''),
        (''page'', JStr ''2''),
        (''constructor'', JStr ''x''),
        (''filters'', JArr [Some (JObj [(''key'', JStr ''k''), (''value'', JStr [CHR 0xE9])]),
                            Some (JArr [Some (JStr ''-1'')] [])] []),
        (''user'', JObj [(''name'', JObj [(''first'', JStr []), (''1.5'', JStr ''y'')])])])"
proof
  show "objectToQueryString (JObj sampleMapping) [] =
     ''7=true&search=a%20b%26c&page=2&constructor=x&filters%5B0%5D%5Bkey%5D=k&filters%5B0%5D%5Bvalue%5D=%C3%A9&filters%5B1%5D%5B0%5D=-1&user%5Bname%5D%5Bfirst%5D=&user%5Bname%5D%5B1.5%5D=y''"
    by (simp add: sampleMapping_def objectToQueryString.simps pairParts.simps itemParts.simps
        codec_eval)
  have "wellFormed (JObj sampleMapping)"
    by (simp add: sampleMapping_def propertyList_def codec_eval)
  moreover have "codecMapping sampleMapping"
    by (simp add: sampleMapping_def codecMapping_def plainKey_def codec_eval)
  ultimately show "queryStringToObject (objectToQueryString (JObj sampleMapping) []) =
     Inr (JObj
       [(''7'', JStr ''true''),
        (''search'', JStr ''a b&c''),
        (''page'', JStr ''2''),
        (''constructor'', JStr ''x''),
        (''filters'', JArr [Some (JObj [(''key'', JStr ''k''), (''value'', JStr [CHR 0xE9])]),
                            Some (JArr [Some (JStr ''-1'')] [])] []),
        (''user'', JObj [(''name'', JObj [(''first'', JStr []), (''1.5'', JStr ''y'')])])])"
    using decode_inverts_encode [of sampleMapping]
    by (simp add: sampleMapping_def showInt_def showNat.simps digitChar_def)
qed

text \<open>
  C1 as stated fails: \<open>null\<close> is among the scalars of the claim, and the encoder emits
  nothing for it, so \<open>{a: null}\<close> comes back as \<open>{}\<close>; and a nested mapping with the key
  \<open>0\<close> comes back as a sequence.
\<close>

theorem null_and_numeric_keys_do_not_round_trip:
  "queryStringToObject (objectToQueryString (JObj [(''a'', JNull)]) []) = Inr (JObj [])
   \<and> normalize (JObj [(''a'', JNull)]) = JObj [(''a'', JStr ''null'')]
   \<and> queryStringToObject (objectToQueryString (JObj [(''a'', JObj [(''0'', JStr ''x'')])]) [])
       = Inr (JObj [(''a'', JArr [Some (JStr ''x'')] [])])
   \<and> normalize (JObj [(''a'', JObj [(''0'', JStr ''x'')])]) = JObj [(''a'', JObj [(''0'', JStr ''x'')])]"
  by (simp add: objectToQueryString.simps pairParts.simps itemParts.simps codec_eval)

end
